theory Spec2Isabelle
  imports Main "HOL-Library.Word"
begin

unbundle bit_operations_syntax

section \<open>Go standard-library string and path functions called by \<open>s3_fs.go\<close>\<close>

text \<open>A Go string is a sequence of bytes; \<^typ>\<open>string\<close> is a list of 8-bit characters.\<close>

definition HasSuffix :: "string \<Rightarrow> string \<Rightarrow> bool" where
  "HasSuffix s suffix =
     (length s \<ge> length suffix \<and> drop (length s - length suffix) s = suffix)"

definition HasPrefix :: "string \<Rightarrow> string \<Rightarrow> bool" where
  "HasPrefix s prefix = (length s \<ge> length prefix \<and> take (length prefix) s = prefix)"

definition TrimPrefix :: "string \<Rightarrow> string \<Rightarrow> string" where
  "TrimPrefix s prefix = (if HasPrefix s prefix then drop (length prefix) s else s)"

text \<open>\<open>strings.TrimSpace(s) == ""\<close>. TrimSpace removes leading and trailing white space
  as Unicode defines it (\<open>unicode.IsSpace\<close>), decoding the bytes as UTF-8; a byte that
  starts no valid encoding decodes to U+FFFD, which is not white space. The result is empty
  exactly when the left trim consumes the whole string, so only the left trim is modelled.
  \<open>spaceRuneWidth\<close> is the number of bytes of a leading white-space rune, or 0:
  the ASCII bytes tab, LF, VT, FF, CR and space, then U+0085 and U+00A0 (two bytes),
  U+1680, U+2000..U+200A, U+2028, U+2029, U+202F, U+205F and U+3000 (three bytes).\<close>

definition asciiSpace :: "char \<Rightarrow> bool" where
  "asciiSpace c = (c = CHR 0x09 \<or> c = CHR 0x0A \<or> c = CHR 0x0B \<or> c = CHR 0x0C
                    \<or> c = CHR 0x0D \<or> c = CHR 0x20)"

definition spaceRuneWidth :: "string \<Rightarrow> nat" where
  "spaceRuneWidth s =
     (case s of [] \<Rightarrow> 0
      | a # t \<Rightarrow>
          if asciiSpace a then 1
          else (case t of [] \<Rightarrow> 0
            | b # u \<Rightarrow>
                if a = CHR 0xC2 \<and> (b = CHR 0x85 \<or> b = CHR 0xA0) then 2
                else (case u of [] \<Rightarrow> 0
                  | c # _ \<Rightarrow>
                      if a = CHR 0xE1 \<and> b = CHR 0x9A \<and> c = CHR 0x80 then 3
                      else if a = CHR 0xE2 \<and> b = CHR 0x80 \<and>
                              ((0x80 \<le> (of_char c :: nat) \<and> (of_char c :: nat) \<le> 0x8A)
                               \<or> c = CHR 0xA8 \<or> c = CHR 0xA9 \<or> c = CHR 0xAF) then 3
                      else if a = CHR 0xE2 \<and> b = CHR 0x81 \<and> c = CHR 0x9F then 3
                      else if a = CHR 0xE3 \<and> b = CHR 0x80 \<and> c = CHR 0x80 then 3
                      else 0)))"

function TrimLeftSpace :: "string \<Rightarrow> string" where
  "TrimLeftSpace s =
     (if spaceRuneWidth s = 0 then s else TrimLeftSpace (drop (spaceRuneWidth s) s))"
  by pat_completeness auto
termination
proof (relation "measure length")
  fix s :: string
  assume "spaceRuneWidth s \<noteq> 0"
  then have "s \<noteq> []" by (auto simp: spaceRuneWidth_def)
  with \<open>spaceRuneWidth s \<noteq> 0\<close> show "(drop (spaceRuneWidth s) s, s) \<in> measure length"
    by simp
qed simp

declare TrimLeftSpace.simps [simp del]

definition TrimSpace_is_empty :: "string \<Rightarrow> bool" where
  "TrimSpace_is_empty s = (TrimLeftSpace s = [])"

text \<open>\<open>strings.ReplaceAll(s, old, new)\<close> for one-byte \<open>old\<close> and \<open>new\<close>, the only
  form \<open>s3_fs.go\<close> calls: every occurrence of the byte is replaced.\<close>

definition ReplaceAll :: "string \<Rightarrow> char \<Rightarrow> char \<Rightarrow> string" where
  "ReplaceAll s old new = map (\<lambda>c. if c = old then new else c) s"

text \<open>The lazybuf of package path: \<open>out.w--\<close> followed by
  \<open>for out.w > dotdot && out.index(out.w) != '/' { out.w-- }\<close>.\<close>

function backtrack :: "string \<Rightarrow> nat \<Rightarrow> nat \<Rightarrow> nat" where
  "backtrack out dotdot w =
     (if w > dotdot \<and> out ! w \<noteq> CHR ''/'' then backtrack out dotdot (w - 1) else w)"
  by pat_completeness auto
termination
  by (relation "measure (\<lambda>(out, dotdot, w). w)") auto

declare backtrack.simps [simp del]

text \<open>The main loop of \<open>path.Clean\<close>. The remaining input \<open>path[r:]\<close> is the last
  argument; \<open>out\<close> is the written part of the buffer, so \<open>out.w = length out\<close>. In the
  case of the \<open>..\<close> element \<open>rest\<close> is not empty, as in the source, where \<open>path[r+1]\<close>
  is read only after the case before it has excluded \<open>r+1 == n\<close>.\<close>

function Clean_loop :: "bool \<Rightarrow> string \<Rightarrow> nat \<Rightarrow> string \<Rightarrow> string" where
  "Clean_loop rooted out dotdot [] = out"
| "Clean_loop rooted out dotdot (c # rest) =
    (if c = CHR ''/'' then Clean_loop rooted out dotdot rest
     else if c = CHR ''.'' \<and> (rest = [] \<or> hd rest = CHR ''/'') then
       Clean_loop rooted out dotdot rest
     else if c = CHR ''.'' \<and> hd rest = CHR ''.'' \<and> (tl rest = [] \<or> hd (tl rest) = CHR ''/'') then
       (if length out > dotdot then
          Clean_loop rooted (take (backtrack out dotdot (length out - 1)) out) dotdot (tl rest)
        else if \<not> rooted then
          Clean_loop rooted ((if length out > 0 then out @ ''/'' else out) @ ''..'')
            (length ((if length out > 0 then out @ ''/'' else out) @ ''..'')) (tl rest)
        else Clean_loop rooted out dotdot (tl rest))
     else
       Clean_loop rooted
         ((if rooted \<and> length out \<noteq> 1 \<or> \<not> rooted \<and> length out \<noteq> 0 then out @ ''/'' else out)
            @ takeWhile (\<lambda>x. x \<noteq> CHR ''/'') (c # rest))
         dotdot (dropWhile (\<lambda>x. x \<noteq> CHR ''/'') (c # rest)))"
  by pat_completeness auto
termination
proof (relation "measure (\<lambda>(rooted, out, dotdot, p). length p)")
  fix c :: char and rest :: string
  assume "c \<noteq> CHR ''/''"
  moreover have "length (dropWhile (\<lambda>x. x \<noteq> CHR ''/'') rest) \<le> length rest"
    by (rule length_dropWhile_le)
  ultimately show "\<And>rooted out dotdot.
      ((rooted, (if rooted \<and> length out \<noteq> 1 \<or> \<not> rooted \<and> length out \<noteq> 0
                 then out @ ''/'' else out) @ takeWhile (\<lambda>x. x \<noteq> CHR ''/'') (c # rest),
        dotdot, dropWhile (\<lambda>x. x \<noteq> CHR ''/'') (c # rest)), rooted, out, dotdot, c # rest)
      \<in> measure (\<lambda>(rooted, out, dotdot, p). length p)"
    by simp
qed simp_all

declare Clean_loop.simps [simp del]

definition Clean :: "string \<Rightarrow> string" where
  "Clean path =
     (if path = [] then ''.''
      else let rooted = (hd path = CHR ''/'');
               out = Clean_loop rooted (if rooted then ''/'' else []) (if rooted then 1 else 0)
                       (if rooted then tl path else path)
           in if length out = 0 then ''.'' else out)"

text \<open>\<open>path.Base\<close>: the last element of the path, after stripping trailing slashes.\<close>

definition Base :: "string \<Rightarrow> string" where
  "Base path =
     (if path = [] then ''.''
      else let p1 = rev (dropWhile (\<lambda>c. c = CHR ''/'') (rev path));
               p2 = rev (takeWhile (\<lambda>c. c \<noteq> CHR ''/'') (rev p1))
           in if p2 = [] then ''/'' else p2)"

text \<open>\<open>path.Join\<close>: the non-empty elements joined by slashes, then cleaned.\<close>

fun Join_loop :: "string \<Rightarrow> string list \<Rightarrow> string" where
  "Join_loop buf [] = buf"
| "Join_loop buf (e # es) =
     Join_loop (if length buf > 0 \<or> e \<noteq> []
                then (if length buf > 0 then buf @ ''/'' else buf) @ e else buf) es"

definition Join :: "string list \<Rightarrow> string" where
  "Join elem = (if sum_list (map length elem) = 0 then [] else Clean (Join_loop [] elem))"

text \<open>\<open>filepath.Ext\<close> with the separator of Unix: the suffix of the last element
  that starts at its last dot, scanning from the end of the path.\<close>

fun Ext_scan :: "string \<Rightarrow> string \<Rightarrow> string" where
  "Ext_scan [] acc = []"
| "Ext_scan (c # cs) acc =
     (if c = CHR ''/'' then []
      else if c = CHR ''.'' then c # acc
      else Ext_scan cs (c # acc))"

definition Ext :: "string \<Rightarrow> string" where
  "Ext path = Ext_scan (rev path) []"

section \<open>Path normalisation (\<open>s3_fs.go\<close>, \<open>sanitize\<close>)\<close>

text \<open>\<open>volumePrefixRegex = ^[[:alpha:]]:\<close> matches an ASCII letter and a colon at the start
  of the text; \<open>ReplaceAllString(name, "")\<close> removes that one match.\<close>

definition isAlpha :: "char \<Rightarrow> bool" where
  "isAlpha c = ((65 \<le> (of_char c :: nat) \<and> (of_char c :: nat) \<le> 90)
                \<or> (97 \<le> (of_char c :: nat) \<and> (of_char c :: nat) \<le> 122))"

definition volumePrefixRegex_Match :: "string \<Rightarrow> bool" where
  "volumePrefixRegex_Match s =
     (case s of a # b # _ \<Rightarrow> isAlpha a \<and> b = CHR '':'' | _ \<Rightarrow> False)"

definition volumePrefixRegex_ReplaceAllString :: "string \<Rightarrow> string" where
  "volumePrefixRegex_ReplaceAllString s = (if volumePrefixRegex_Match s then drop 2 s else s)"

definition sanitize :: "string \<Rightarrow> string" where
  "sanitize name =
     (if TrimSpace_is_empty name then name
      else let name1 = volumePrefixRegex_ReplaceAllString name;
               name2 = ReplaceAll name1 (CHR 0x5C) (CHR ''/'');
               hasTrailingSlash = HasSuffix name2 ''/'';
               name3 = Clean name2
           in if hasTrailingSlash then name3 @ ''/'' else name3)"

section \<open>Data model\<close>

record UploadedFileProperties =
  ACL :: "string option"
  CacheControl :: "string option"
  ContentType :: "string option"
  ContentEncoding :: "string option"

text \<open>The handle. \<open>Session\<close> and \<open>S3API\<close> are references to the client; the client's
  behaviour is the environment below.\<close>

record Fs =
  FileProps :: "UploadedFileProperties option"
  Bucket :: string
  RawMode :: bool

type_synonym FileMode = "32 word"

datatype time = ZeroTime | Unix int int

text \<open>Responses of the AWS client: an \<open>awserr.RequestFailure\<close> with its status code, or any
  other failure of the SDK. They are never one of the sentinel errors below.\<close>

datatype client_error = RequestFailure int | OtherFailure string

datatype error =
    ErrNotImplemented
  | ErrNotSupported
  | ErrAlreadyOpened
  | ErrInvalidSeek
  | ErrNotExist
  | AwsError client_error
  | PathError string string error

datatype 'a outcome = Panics | Returns 'a

text \<open>Modelled from the spec: the file handle and the metadata record are declared in files of
  the repository that are not part of the source given here. A handle is constructed with
  (facade handle, normalized path) and exposes its name; a metadata record has a name, an
  is-directory flag, a size and a last-modified time.\<close>

record File =
  file_fs :: Fs
  file_name :: string

definition NewFile :: "Fs \<Rightarrow> string \<Rightarrow> File" where
  "NewFile fs name = \<lparr>file_fs = fs, file_name = name\<rparr>"

record FileInfo =
  fi_name :: string
  fi_directory :: bool
  fi_sizeInBytes :: int
  fi_modTime :: time

definition NewFileInfo :: "string \<Rightarrow> bool \<Rightarrow> int \<Rightarrow> time \<Rightarrow> FileInfo" where
  "NewFileInfo name directory sizeInBytes modTime =
     \<lparr>fi_name = name, fi_directory = directory, fi_sizeInBytes = sizeInBytes,
      fi_modTime = modTime\<rparr>"

definition FileInfo_zero :: FileInfo where
  "FileInfo_zero = \<lparr>fi_name = [], fi_directory = False, fi_sizeInBytes = 0, fi_modTime = ZeroTime\<rparr>"

subsection \<open>Requests and responses of the object-store client\<close>

record PutObjectInput =
  put_Bucket :: string
  put_Key :: string
  put_Body :: string
  put_ACL :: "string option"
  put_CacheControl :: "string option"
  put_ContentType :: "string option"
  put_ContentEncoding :: "string option"

record HeadObjectOutput =
  ContentLength :: "int option"
  LastModified :: "time option"

record ListObjectsV2Output =
  KeyCount :: "int option"

text \<open>Every call that leaves the facade, to the client or to a file handle, in the order
  issued. CopyObject carries bucket, copy source and key; ListObjectsV2 bucket, prefix and
  MaxKeys.\<close>

datatype call =
    PutObject PutObjectInput
  | HeadObject string string
  | WaitUntilObjectExists string string
  | DeleteObject string string
  | CopyObject string string string
  | ListObjectsV2 string string int
  | PutObjectAcl string string string
  | FileOpenWriteStream File
  | FileOpenReadStream File int
  | FileStat File
  | FileReaddir File int
  | FileClose File

text \<open>The environment: what the client and the file handles answer to a call, given the
  calls issued before it, and the MIME table of package mime.\<close>

record env =
  s3_PutObject :: "call list \<Rightarrow> PutObjectInput \<Rightarrow> client_error option"
  s3_HeadObject :: "call list \<Rightarrow> string \<Rightarrow> string \<Rightarrow> client_error + HeadObjectOutput"
  s3_WaitUntilObjectExists :: "call list \<Rightarrow> string \<Rightarrow> string \<Rightarrow> client_error option"
  s3_DeleteObject :: "call list \<Rightarrow> string \<Rightarrow> string \<Rightarrow> client_error option"
  s3_CopyObject :: "call list \<Rightarrow> string \<Rightarrow> string \<Rightarrow> string \<Rightarrow> client_error option"
  s3_ListObjectsV2 :: "call list \<Rightarrow> string \<Rightarrow> string \<Rightarrow> int \<Rightarrow> client_error + ListObjectsV2Output"
  s3_PutObjectAcl :: "call list \<Rightarrow> string \<Rightarrow> string \<Rightarrow> string \<Rightarrow> client_error option"
  file_openWriteStream :: "call list \<Rightarrow> File \<Rightarrow> error option"
  file_openReadStream :: "call list \<Rightarrow> File \<Rightarrow> int \<Rightarrow> error option"
  file_Stat :: "call list \<Rightarrow> File \<Rightarrow> error + FileInfo"
  file_Readdir :: "call list \<Rightarrow> File \<Rightarrow> int \<Rightarrow> error + FileInfo list"
  file_Close :: "call list \<Rightarrow> File \<Rightarrow> error option"
  mime_TypeByExtension :: "string \<Rightarrow> string"

text \<open>The flags of package os, with their values on Linux; Go's \<open>int\<close> is 64 bits wide.\<close>

definition O_RDONLY :: "64 word" where "O_RDONLY = 0"
definition O_WRONLY :: "64 word" where "O_WRONLY = 1"
definition O_RDWR :: "64 word" where "O_RDWR = 2"
definition O_CREATE :: "64 word" where "O_CREATE = 0x40"
definition O_APPEND :: "64 word" where "O_APPEND = 0x400"

section \<open>The filesystem facade (\<open>s3_fs.go\<close>)\<close>

text \<open>Every operation takes the calls issued so far and returns its result with the calls
  extended by its own.\<close>

definition Fs_sanitize :: "Fs \<Rightarrow> string \<Rightarrow> string" where
  "Fs_sanitize fs name = (if RawMode fs then name else sanitize name)"

definition applyFileCreateProps :: "PutObjectInput \<Rightarrow> UploadedFileProperties \<Rightarrow> PutObjectInput" where
  "applyFileCreateProps req p =
     (let req1 = (if ACL p \<noteq> None then req\<lparr>put_ACL := ACL p\<rparr> else req);
          req2 = (if CacheControl p \<noteq> None then req1\<lparr>put_CacheControl := CacheControl p\<rparr> else req1);
          req3 = (if ContentType p \<noteq> None then req2\<lparr>put_ContentType := ContentType p\<rparr> else req2)
      in if ContentEncoding p \<noteq> None then req3\<lparr>put_ContentEncoding := ContentEncoding p\<rparr> else req3)"

definition OpenFile ::
  "env \<Rightarrow> Fs \<Rightarrow> string \<Rightarrow> 64 word \<Rightarrow> FileMode \<Rightarrow> call list
     \<Rightarrow> (File option \<times> error option) \<times> call list" where
  "OpenFile e fs name flag perm tr =
     (let name1 = Fs_sanitize fs name;
          file = NewFile fs name1
      in if flag AND O_RDWR \<noteq> 0 then ((None, Some ErrNotSupported), tr)
         else if flag AND O_APPEND \<noteq> 0 then ((None, Some ErrNotSupported), tr)
         else
           let flag1 = (if flag AND O_CREATE \<noteq> 0 then flag OR O_WRONLY else flag)
           in if flag1 AND O_WRONLY \<noteq> 0 then
                ((Some file, file_openWriteStream e tr file), tr @ [FileOpenWriteStream file])
              else
                (case file_Stat e tr file of
                   Inl err \<Rightarrow> ((None, Some err), tr @ [FileStat file])
                 | Inr info \<Rightarrow>
                     if fi_directory info then ((Some file, None), tr @ [FileStat file])
                     else ((Some file, file_openReadStream e (tr @ [FileStat file]) file 0),
                           tr @ [FileStat file, FileOpenReadStream file 0])))"

text \<open>The permission \<open>0750\<close> that Create passes to OpenFile is 488.\<close>

definition Create ::
  "env \<Rightarrow> Fs \<Rightarrow> string \<Rightarrow> call list \<Rightarrow> (File option \<times> error option) \<times> call list" where
  "Create e fs name tr =
     (let req = \<lparr>put_Bucket = Bucket fs, put_Key = name, put_Body = [], put_ACL = None,
                 put_CacheControl = None, put_ContentType = None, put_ContentEncoding = None\<rparr>;
          req1 = (case FileProps fs of None \<Rightarrow> req | Some p \<Rightarrow> applyFileCreateProps req p);
          req2 = (if put_ContentType req1 = None
                  then req1\<lparr>put_ContentType := Some (mime_TypeByExtension e (Ext name))\<rparr>
                  else req1);
          tr1 = tr @ [PutObject req2]
      in case s3_PutObject e tr req2 of
           Some errPut \<Rightarrow> ((None, Some (AwsError errPut)), tr1)
         | None \<Rightarrow>
             (case OpenFile e fs name O_WRONLY 488 tr1 of
                ((file, Some err), tr2) \<Rightarrow> ((file, Some err), tr2)
              | ((file, None), tr2) \<Rightarrow>
                  ((file, map_option AwsError (s3_WaitUntilObjectExists e tr2 (Bucket fs) name)),
                   tr2 @ [WaitUntilObjectExists (Bucket fs) name])))"

text \<open>\<open>file.Close()\<close> on a nil file would panic; OpenFile returns no error only with a file.\<close>

definition Mkdir ::
  "env \<Rightarrow> Fs \<Rightarrow> string \<Rightarrow> FileMode \<Rightarrow> call list \<Rightarrow> error option outcome \<times> call list" where
  "Mkdir e fs name perm tr =
     (let name1 = Fs_sanitize fs name
      in case OpenFile e fs (Clean name1 @ ''/'') O_CREATE perm tr of
           ((file, Some err), tr1) \<Rightarrow> (Returns (Some err), tr1)
         | ((Some file, None), tr1) \<Rightarrow> (Returns (file_Close e tr1 file), tr1 @ [FileClose file])
         | ((None, None), tr1) \<Rightarrow> (Panics, tr1))"

definition MkdirAll ::
  "env \<Rightarrow> Fs \<Rightarrow> string \<Rightarrow> FileMode \<Rightarrow> call list \<Rightarrow> error option outcome \<times> call list" where
  "MkdirAll e fs path perm tr = Mkdir e fs path perm tr"

definition forceRemove :: "env \<Rightarrow> Fs \<Rightarrow> string \<Rightarrow> call list \<Rightarrow> error option \<times> call list" where
  "forceRemove e fs name tr =
     (map_option AwsError (s3_DeleteObject e tr (Bucket fs) name),
      tr @ [DeleteObject (Bucket fs) name])"

text \<open>RemoveAll recurses into whatever the listing of a directory returns, so nothing bounds
  its depth: the first argument is fuel, and \<open>None\<close> is a run that exhausted it.
  \<open>RemoveAll_range\<close> is the loop over the entries.\<close>

fun RemoveAll :: "nat \<Rightarrow> env \<Rightarrow> Fs \<Rightarrow> string \<Rightarrow> call list \<Rightarrow> (error option \<times> call list) option"
  and RemoveAll_range ::
    "nat \<Rightarrow> env \<Rightarrow> Fs \<Rightarrow> File \<Rightarrow> FileInfo list \<Rightarrow> call list \<Rightarrow> (error option \<times> call list) option"
where
  "RemoveAll 0 e fs name tr = None"
| "RemoveAll (Suc n) e fs name tr =
     (let name1 = Fs_sanitize fs name;
          s3dir = NewFile fs name1;
          tr1 = tr @ [FileReaddir s3dir 0]
      in case file_Readdir e tr s3dir 0 of
           Inl err \<Rightarrow> Some (Some err, tr1)
         | Inr fis \<Rightarrow>
             (case RemoveAll_range n e fs s3dir fis tr1 of
                None \<Rightarrow> None
              | Some (Some err, tr2) \<Rightarrow> Some (Some err, tr2)
              | Some (None, tr2) \<Rightarrow> Some (forceRemove e fs (file_name s3dir @ ''/'') tr2)))"
| "RemoveAll_range n e fs s3dir [] tr = Some (None, tr)"
| "RemoveAll_range n e fs s3dir (fi # fis) tr =
     (let fullpath = Join [file_name s3dir, fi_name fi]
      in case (if fi_directory fi then RemoveAll n e fs fullpath tr
               else Some (forceRemove e fs fullpath tr)) of
           None \<Rightarrow> None
         | Some (Some err, tr1) \<Rightarrow> Some (Some err, tr1)
         | Some (None, tr1) \<Rightarrow> RemoveAll_range n e fs s3dir fis tr1)"

definition Rename :: "env \<Rightarrow> Fs \<Rightarrow> string \<Rightarrow> string \<Rightarrow> call list \<Rightarrow> error option \<times> call list" where
  "Rename e fs oldname newname tr =
     (let oldname1 = Fs_sanitize fs newname;
          newname1 = Fs_sanitize fs oldname1
      in if oldname1 = newname1 then (None, tr)
         else
           let tr1 = tr @ [CopyObject (Bucket fs) (Bucket fs @ oldname1) newname1]
           in case s3_CopyObject e tr (Bucket fs) (Bucket fs @ oldname1) newname1 of
                Some err \<Rightarrow> (Some (AwsError err), tr1)
              | None \<Rightarrow>
                  (map_option AwsError (s3_DeleteObject e tr1 (Bucket fs) oldname1),
                   tr1 @ [DeleteObject (Bucket fs) oldname1]))"

definition statDirectory ::
  "env \<Rightarrow> Fs \<Rightarrow> string \<Rightarrow> call list
     \<Rightarrow> (FileInfo option \<times> error option) outcome \<times> call list" where
  "statDirectory e fs name tr =
     (let nameClean = Clean name;
          prefix = TrimPrefix nameClean ''/'';
          tr1 = tr @ [ListObjectsV2 (Bucket fs) prefix 1]
      in case s3_ListObjectsV2 e tr (Bucket fs) prefix 1 of
           Inl err \<Rightarrow>
             (Returns (Some FileInfo_zero, Some (PathError ''stat'' name (AwsError err))), tr1)
         | Inr out \<Rightarrow>
             (case KeyCount out of
                None \<Rightarrow> (Panics, tr1)
              | Some n \<Rightarrow>
                  if n = 0 \<and> name \<noteq> [] then
                    (Returns (None, Some (PathError ''stat'' name ErrNotExist)), tr1)
                  else (Returns (Some (NewFileInfo (Base name) True 0 (Unix 0 0)), None), tr1)))"

definition Stat ::
  "env \<Rightarrow> Fs \<Rightarrow> string \<Rightarrow> call list
     \<Rightarrow> (FileInfo option \<times> error option) outcome \<times> call list" where
  "Stat e fs name tr =
     (let name1 = Fs_sanitize fs name;
          tr1 = tr @ [HeadObject (Bucket fs) name1]
      in case s3_HeadObject e tr (Bucket fs) name1 of
           Inl err \<Rightarrow>
             (case err of
                RequestFailure code \<Rightarrow>
                  if code = 404 then statDirectory e fs name1 tr1
                  else (Returns (Some FileInfo_zero, Some (PathError ''stat'' name1 (AwsError err))), tr1)
              | OtherFailure m \<Rightarrow>
                  (Returns (Some FileInfo_zero, Some (PathError ''stat'' name1 (AwsError err))), tr1))
         | Inr out \<Rightarrow>
             if HasSuffix name1 ''/'' then
               (Returns (Some (FileInfo_zero\<lparr>fi_name := name1\<rparr>), None), tr1)
             else
               (case ContentLength out of
                  None \<Rightarrow> (Panics, tr1)
                | Some len \<Rightarrow>
                    (case LastModified out of
                       None \<Rightarrow> (Panics, tr1)
                     | Some t \<Rightarrow> (Returns (Some (NewFileInfo (Base name1) False len t), None), tr1))))"

definition Chmod :: "env \<Rightarrow> Fs \<Rightarrow> string \<Rightarrow> FileMode \<Rightarrow> call list \<Rightarrow> error option \<times> call list" where
  "Chmod e fs name mode tr =
     (let name1 = Fs_sanitize fs name;
          otherRead = (mode AND (push_bit 2 1) \<noteq> 0);
          otherWrite = (mode AND (push_bit 1 1) \<noteq> 0);
          acl = (if otherRead \<and> otherWrite then ''public-read-write''
                 else if otherRead then ''public-read''
                 else ''private'')
      in (map_option AwsError (s3_PutObjectAcl e tr (Bucket fs) name1 acl),
          tr @ [PutObjectAcl (Bucket fs) name1 acl]))"

section \<open>A concrete handle and environment\<close>

text \<open>A handle on the bucket \<open>bucket\<close> that normalises paths, and an environment in which
  every call succeeds, every directory is empty and every object has size 0.\<close>

definition fs_example :: Fs where
  "fs_example = \<lparr>FileProps = None, Bucket = ''bucket'', RawMode = False\<rparr>"

definition env_ok :: env where
  "env_ok =
     \<lparr>s3_PutObject = (\<lambda>tr req. None),
      s3_HeadObject = (\<lambda>tr b k. Inr \<lparr>ContentLength = Some 0, LastModified = Some (Unix 0 0)\<rparr>),
      s3_WaitUntilObjectExists = (\<lambda>tr b k. None),
      s3_DeleteObject = (\<lambda>tr b k. None),
      s3_CopyObject = (\<lambda>tr b src k. None),
      s3_ListObjectsV2 = (\<lambda>tr b p n. Inr \<lparr>KeyCount = Some 0\<rparr>),
      s3_PutObjectAcl = (\<lambda>tr b k a. None),
      file_openWriteStream = (\<lambda>tr f. None),
      file_openReadStream = (\<lambda>tr f off. None),
      file_Stat = (\<lambda>tr f. Inr (NewFileInfo (Base (file_name f)) False 0 (Unix 0 0))),
      file_Readdir = (\<lambda>tr f n. Inr []),
      file_Close = (\<lambda>tr f. None),
      mime_TypeByExtension = (\<lambda>ext. [])\<rparr>"

section \<open>The element view of \<open>path.Clean\<close>\<close>

text \<open>For the proofs about \<open>Clean\<close>: a path is a list of elements separated by slashes, and
  the buffer of the loop is a stack of elements. \<open>step\<close> is what one element does to the
  stack, \<open>run\<close> folds it over the elements of a path, \<open>render\<close> is the buffer that a stack
  stands for and \<open>ddpos\<close> the value of \<open>dotdot\<close> that goes with it. \<open>NF\<close> is the shape of
  every stack the loop builds: leading \<open>..\<close> elements (none when rooted), then elements that
  are neither empty, nor \<open>.\<close>, nor \<open>..\<close>, and contain no slash.\<close>

fun split_path :: "string \<Rightarrow> string list" where
  "split_path [] = [[]]"
| "split_path (c # cs) =
     (if c = CHR ''/'' then [] # split_path cs
      else (c # hd (split_path cs)) # tl (split_path cs))"

fun join :: "string list \<Rightarrow> string" where
  "join [] = []"
| "join [e] = e"
| "join (e # es) = e @ ''/'' @ join es"

definition render :: "bool \<Rightarrow> string list \<Rightarrow> string" where
  "render r st = (if r then ''/'' else []) @ join st"

definition real_elem :: "string \<Rightarrow> bool" where
  "real_elem e = (e \<noteq> [] \<and> CHR ''/'' \<notin> set e \<and> e \<noteq> ''.'' \<and> e \<noteq> ''..'')"

definition NF :: "bool \<Rightarrow> string list \<Rightarrow> bool" where
  "NF r st = ((\<forall>e \<in> set (dropWhile (\<lambda>e. e = ''..'') st). real_elem e) \<and>
              (r \<longrightarrow> (\<forall>e \<in> set st. real_elem e)))"

definition ddpos :: "bool \<Rightarrow> string list \<Rightarrow> nat" where
  "ddpos r st = (if r then 1 else length (join (takeWhile (\<lambda>e. e = ''..'') st)))"

definition step :: "bool \<Rightarrow> string list \<Rightarrow> string \<Rightarrow> string list" where
  "step r st e =
     (if e = [] \<or> e = ''.'' then st
      else if e = ''..'' then
        (if st \<noteq> [] \<and> last st \<noteq> ''..'' then butlast st
         else if \<not> r then st @ [''..''] else st)
      else st @ [e])"

definition run :: "bool \<Rightarrow> string list \<Rightarrow> string \<Rightarrow> string list" where
  "run r st p = foldl (step r) st (split_path p)"

definition rooted :: "string \<Rightarrow> bool" where
  "rooted p = (p \<noteq> [] \<and> hd p = CHR ''/'')"

definition dot_if_empty :: "string \<Rightarrow> string" where
  "dot_if_empty s = (if s = [] then ''.'' else s)"

section \<open>Properties of \<open>path.Clean\<close>\<close>

subsection \<open>Elements of a path\<close>

lemma split_path_ne [simp]: "split_path p \<noteq> []"
  by (induction p) auto

lemma split_path_noslash: "CHR ''/'' \<notin> set e \<Longrightarrow> split_path e = [e]"
  by (induction e) auto

lemma split_path_app: "CHR ''/'' \<notin> set e \<Longrightarrow> split_path (e @ CHR ''/'' # t) = e # split_path t"
  by (induction e) auto

lemma step_empty [simp]: "step r st [] = st"
  by (simp add: step_def)

lemma run_slash [simp]: "run r st (CHR ''/'' # t) = run r st t"
  by (simp add: run_def)

lemma run_nil [simp]: "run r st [] = st"
  by (simp add: run_def)

lemma run_elem:
  assumes "CHR ''/'' \<notin> set e" and "t = [] \<or> hd t = CHR ''/''"
  shows "run r st (e @ t) = run r (step r st e) t"
proof (cases t)
  case Nil
  with assms show ?thesis by (simp add: run_def split_path_noslash)
next
  case (Cons c t')
  with assms have "c = CHR ''/''" by simp
  with Cons assms show ?thesis by (simp add: run_def split_path_app)
qed

lemma run_snoc_slash: "run r st (p @ ''/'') = run r st p"
proof -
  have "split_path (p @ ''/'') = split_path p @ [[]]"
    by (induction p) (auto simp: neq_Nil_conv)
  then show ?thesis by (simp add: run_def)
qed

subsection \<open>The cases of the loop\<close>

text \<open>One equation for each case of the switch in the loop, with the tests on single bytes
  replaced by the shape of the remaining input.\<close>

lemma CL_slash: "Clean_loop r out dd (CHR ''/'' # t) = Clean_loop r out dd t"
  by (simp add: Clean_loop.simps)

lemma CL_dot:
  assumes "t = [] \<or> hd t = CHR ''/''"
  shows "Clean_loop r out dd (CHR ''.'' # t) = Clean_loop r out dd t"
  using assms by (subst Clean_loop.simps) simp

lemma CL_dotdot:
  assumes "t = [] \<or> hd t = CHR ''/''"
  shows "Clean_loop r out dd (CHR ''.'' # CHR ''.'' # t) =
    (if length out > dd then
       Clean_loop r (take (backtrack out dd (length out - 1)) out) dd t
     else if \<not> r then
       Clean_loop r ((if length out > 0 then out @ ''/'' else out) @ ''..'')
         (length ((if length out > 0 then out @ ''/'' else out) @ ''..'')) t
     else Clean_loop r out dd t)"
  using assms by (subst Clean_loop.simps) simp

lemma tw_elem:
  "CHR ''/'' \<notin> set e \<Longrightarrow> t = [] \<or> hd t = CHR ''/'' \<Longrightarrow>
   takeWhile (\<lambda>x. x \<noteq> CHR ''/'') (e @ t) = e"
  by (cases t) (induction e; auto)+

lemma dw_elem:
  "CHR ''/'' \<notin> set e \<Longrightarrow> t = [] \<or> hd t = CHR ''/'' \<Longrightarrow>
   dropWhile (\<lambda>x. x \<noteq> CHR ''/'') (e @ t) = t"
  by (cases t) (induction e; auto)+

lemma CL_elem:
  assumes "real_elem e" and "t = [] \<or> hd t = CHR ''/''"
  shows "Clean_loop r out dd (e @ t) =
     Clean_loop r ((if r \<and> length out \<noteq> 1 \<or> \<not> r \<and> length out \<noteq> 0 then out @ ''/'' else out) @ e) dd t"
proof -
  from assms(1) obtain c e' where e: "e = c # e'" and c: "c \<noteq> CHR ''/''"
    and ns: "CHR ''/'' \<notin> set e'"
    by (cases e) (auto simp: real_elem_def)
  have tw: "takeWhile (\<lambda>x. x \<noteq> CHR ''/'') (e @ t) = e"
    using assms by (simp add: tw_elem real_elem_def)
  have dw: "dropWhile (\<lambda>x. x \<noteq> CHR ''/'') (e @ t) = t"
    using assms by (simp add: dw_elem real_elem_def)
  have n1: "\<not> (c = CHR ''.'' \<and> (e' @ t = [] \<or> hd (e' @ t) = CHR ''/''))"
    using assms e ns by (cases e') (auto simp: real_elem_def)
  have n2: "\<not> (c = CHR ''.'' \<and> hd (e' @ t) = CHR ''.'' \<and> (tl (e' @ t) = [] \<or> hd (tl (e' @ t)) = CHR ''/''))"
  proof (cases e')
    case Nil
    with assms e show ?thesis by (auto simp: real_elem_def)
  next
    case (Cons d e'')
    with assms e ns show ?thesis by (cases e'') (auto simp: real_elem_def)
  qed
  show ?thesis
    unfolding e append_Cons
    apply (subst Clean_loop.simps)
    using c n1 n2 tw dw unfolding e append_Cons
    by (simp only: if_False)
qed

subsection \<open>Backtracking over the last element\<close>

lemma backtrack_stop:
  "m \<le> w \<Longrightarrow> (\<forall>i. m < i \<and> i \<le> w \<longrightarrow> dd < i \<and> out ! i \<noteq> CHR ''/'') \<Longrightarrow>
   \<not> (dd < m \<and> out ! m \<noteq> CHR ''/'') \<Longrightarrow> backtrack out dd w = m"
proof (induction out dd w rule: backtrack.induct)
  case (1 out dotdot w)
  show ?case
  proof (cases "w = m")
    case True
    with 1(4) show ?thesis by (subst backtrack.simps) auto
  next
    case False
    with 1(2) have lt: "m < w" by simp
    with 1(3) have go: "dotdot < w \<and> out ! w \<noteq> CHR ''/''" by simp
    have "backtrack out dotdot (w - 1) = m"
    proof (rule 1(1) [OF go])
      show "m \<le> w - 1" using lt by simp
      show "\<forall>i. m < i \<and> i \<le> w - 1 \<longrightarrow> dotdot < i \<and> out ! i \<noteq> CHR ''/''"
        using 1(3) by auto
      show "\<not> (dotdot < m \<and> out ! m \<noteq> CHR ''/'')" by (rule 1(4))
    qed
    with go show ?thesis by (subst backtrack.simps) simp
  qed
qed

lemma backtrack_elem:
  assumes "CHR ''/'' \<notin> set e" and "e \<noteq> []"
    and "(s = ''/'' \<and> dd \<le> length pre) \<or> (s = [] \<and> dd = length pre)"
  shows "take (backtrack (pre @ s @ e) dd (length (pre @ s @ e) - 1)) (pre @ s @ e) = pre"
proof -
  let ?out = "pre @ s @ e"
  have nth: "\<And>i. length (pre @ s) \<le> i \<Longrightarrow> i < length ?out \<Longrightarrow> ?out ! i \<noteq> CHR ''/''"
  proof -
    fix i assume a: "length (pre @ s) \<le> i" "i < length ?out"
    then have "?out ! i = e ! (i - length (pre @ s))"
      using nth_append [of "pre @ s" e i] by simp
    moreover have "e ! (i - length (pre @ s)) \<in> set e"
      using a by (intro nth_mem) auto
    ultimately show "?out ! i \<noteq> CHR ''/''" using assms(1) by metis
  qed
  have "backtrack ?out dd (length ?out - 1) = length pre"
  proof (rule backtrack_stop)
    show "length pre \<le> length ?out - 1" using assms(2) by (cases e) auto
    show "\<forall>i. length pre < i \<and> i \<le> length ?out - 1 \<longrightarrow> dd < i \<and> ?out ! i \<noteq> CHR ''/''"
    proof (intro allI impI)
      fix i assume a: "length pre < i \<and> i \<le> length ?out - 1"
      have il: "i < length ?out" using a assms(2) by (cases e) auto
      have "length (pre @ s) \<le> i" using a assms(3) by auto
      from nth [OF this il] a assms(3) show "dd < i \<and> ?out ! i \<noteq> CHR ''/''" by auto
    qed
    show "\<not> (dd < length pre \<and> ?out ! length pre \<noteq> CHR ''/'')"
      using assms(3) by (auto simp: nth_append)
  qed
  then show ?thesis by simp
qed

lemma join_snoc: "st \<noteq> [] \<Longrightarrow> join (st @ [e]) = join st @ ''/'' @ e"
  by (induction st rule: join.induct) auto

lemma join_empty_iff: "\<forall>e \<in> set st. e \<noteq> [] \<Longrightarrow> join st = [] \<longleftrightarrow> st = []"
  by (induction st rule: join.induct) auto

subsection \<open>Stacks in normal form\<close>

lemma real_elem_simps [simp]:
  "\<not> real_elem []" "\<not> real_elem ''.''" "\<not> real_elem ''..''"
  by (simp_all add: real_elem_def)

lemma NF_Nil [simp]: "NF r []"
  by (simp add: NF_def)

lemma NF_cases:
  assumes "NF r st"
  shows "st = [] \<or> (st \<noteq> [] \<and> real_elem (last st) \<and> NF r (butlast st)
            \<and> takeWhile (\<lambda>e. e = ''..'') (butlast st) = takeWhile (\<lambda>e. e = ''..'') st)
         \<or> (st \<noteq> [] \<and> \<not> r \<and> (\<forall>e \<in> set st. e = ''..''))"
proof (cases "st = []")
  case True then show ?thesis by simp
next
  case False
  then obtain xs x where st: "st = xs @ [x]" by (metis rev_exhaust)
  show ?thesis
  proof (cases "\<forall>e \<in> set st. e = ''..''")
    case True
    obtain y ys where "st = y # ys" using False by (cases st) auto
    with True have "y \<in> set st" "y = ''..''" by auto
    then have "\<not> r" using assms unfolding NF_def by (metis real_elem_simps(3))
    with True False show ?thesis by simp
  next
    case nall: False
    have dw: "dropWhile (\<lambda>e. e = ''..'') st \<noteq> []" using nall by simp
    have "dropWhile (\<lambda>e. e = ''..'') st =
            (if \<forall>e\<in>set xs. e = ''..'' then dropWhile (\<lambda>e. e = ''..'') [x]
             else dropWhile (\<lambda>e. e = ''..'') xs @ [x])"
      unfolding st by (simp add: dropWhile_append)
    with dw have xin: "x \<in> set (dropWhile (\<lambda>e. e = ''..'') st)"
      by (auto split: if_splits)
    then have rx: "real_elem x" using assms by (simp add: NF_def)
    then have xdd: "x \<noteq> ''..''" by auto
    have tw: "takeWhile (\<lambda>e. e = ''..'') xs = takeWhile (\<lambda>e. e = ''..'') st"
      unfolding st using xdd by (simp add: takeWhile_append takeWhile_eq_all_conv [THEN iffD2])
    have "set (dropWhile (\<lambda>e. e = ''..'') xs) \<subseteq> set (dropWhile (\<lambda>e. e = ''..'') st)"
    proof (cases "\<forall>e\<in>set xs. e = ''..''")
      case True
      then have "dropWhile (\<lambda>e. e = ''..'') xs = []" by simp
      then show ?thesis by (simp only: list.set empty_subsetI)
    next
      case False
      then have "dropWhile (\<lambda>e. e = ''..'') st = dropWhile (\<lambda>e. e = ''..'') xs @ [x]"
        unfolding st by (simp add: dropWhile_append)
      then show ?thesis by auto
    qed
    then have "NF r xs" using assms unfolding NF_def st by auto
    with rx tw st show ?thesis by simp
  qed
qed

lemma NF_elems: "NF r st \<Longrightarrow> e \<in> set st \<Longrightarrow> e \<noteq> [] \<and> CHR ''/'' \<notin> set e"
proof -
  assume nf: "NF r st" and e: "e \<in> set st"
  have "set (takeWhile (\<lambda>e. e = ''..'') st @ dropWhile (\<lambda>e. e = ''..'') st) = set st"
    by (simp only: takeWhile_dropWhile_id)
  then have "set st = set (takeWhile (\<lambda>e. e = ''..'') st) \<union> set (dropWhile (\<lambda>e. e = ''..'') st)"
    by (simp only: set_append)
  with e consider "e \<in> set (takeWhile (\<lambda>e. e = ''..'') st)" | "e \<in> set (dropWhile (\<lambda>e. e = ''..'') st)"
    by auto
  then show ?thesis
  proof cases
    case 1
    then have "e = ''..''" by (rule set_takeWhileD [THEN conjunct2])
    then show ?thesis by simp
  next
    case 2
    with nf have "real_elem e" unfolding NF_def by blast
    then show ?thesis by (simp add: real_elem_def)
  qed
qed

lemma join_app:
  "join (xs @ ys) = join xs @ (if xs = [] \<or> ys = [] then [] else ''/'') @ join ys"
proof (induction xs rule: join.induct)
  case 1
  show ?case by simp
next
  case (2 e)
  show ?case by (cases ys) simp_all
next
  case (3 e v va)
  then show ?case by simp
qed

lemma join_takeWhile_le: "length (join (takeWhile P st)) \<le> length (join st)"
proof -
  have "join st = join (takeWhile P st @ dropWhile P st)" by simp
  also have "length \<dots> \<ge> length (join (takeWhile P st))"
    unfolding join_app by simp
  finally show ?thesis .
qed

lemma render_Nil_len: "length (render r []) = ddpos r []"
  by (simp add: render_def ddpos_def)

lemma render_snoc:
  "render r (st @ [e]) = render r st @ (if st = [] then [] else ''/'') @ e"
  by (simp add: render_def join_app)

lemma render_len_iff:
  assumes "NF r st"
  shows "(r \<and> length (render r st) \<noteq> 1 \<or> \<not> r \<and> length (render r st) \<noteq> 0) \<longleftrightarrow> st \<noteq> []"
proof -
  have "join st = [] \<longleftrightarrow> st = []"
    using NF_elems [OF assms] by (intro join_empty_iff) auto
  then show ?thesis by (cases r) (auto simp: render_def)
qed

lemma takeWhile_snoc_not: "\<not> P x \<Longrightarrow> takeWhile P (xs @ [x]) = takeWhile P xs"
  by (induction xs) auto

lemma elem_kinds:
  "e \<noteq> [] \<Longrightarrow> CHR ''/'' \<notin> set e \<Longrightarrow> e = ''.'' \<or> e = ''..'' \<or> real_elem e"
  by (auto simp: real_elem_def)

lemma NF_snoc_real: "NF r st \<Longrightarrow> real_elem e \<Longrightarrow> NF r (st @ [e])"
proof -
  assume nf: "NF r st" and re: "real_elem e"
  have "set (dropWhile (\<lambda>e. e = ''..'') (st @ [e])) \<subseteq> insert e (set (dropWhile (\<lambda>e. e = ''..'') st))"
    by (auto simp: dropWhile_append split: if_splits)
  with nf re show ?thesis unfolding NF_def by auto
qed

lemma NF_snoc_dotdot:
  "\<not> r \<Longrightarrow> \<forall>e \<in> set st. e = ''..'' \<Longrightarrow> NF r (st @ [''..''])"
  unfolding NF_def by simp

lemma step_real: "real_elem e \<Longrightarrow> step r st e = st @ [e]"
  by (auto simp: step_def)

lemma step_dot [simp]: "step r st ''.'' = st"
  by (simp add: step_def)

lemma NF_step:
  assumes "NF r st" and "CHR ''/'' \<notin> set e"
  shows "NF r (step r st e)"
proof (cases "e = []")
  case True with assms show ?thesis by simp
next
  case False
  from elem_kinds [OF False assms(2)] show ?thesis
  proof (elim disjE)
    assume "e = ''.''" with assms show ?thesis by simp
  next
    assume "real_elem e"
    with assms show ?thesis by (simp add: step_real NF_snoc_real)
  next
    assume e: "e = ''..''"
    from NF_cases [OF assms(1)] show ?thesis
    proof (elim disjE conjE)
      assume "st = []"
      then show ?thesis unfolding e step_def NF_def by simp
    next
      assume "st \<noteq> []" "real_elem (last st)" "NF r (butlast st)"
      moreover from this have "last st \<noteq> ''..''" by auto
      ultimately show ?thesis unfolding e step_def by simp
    next
      assume a: "st \<noteq> []" "\<not> r" "\<forall>e\<in>set st. e = ''..''"
      then have "last st = ''..''" using last_in_set by blast
      with a show ?thesis unfolding e step_def by (simp add: NF_snoc_dotdot)
    qed
  qed
qed

subsection \<open>The loop on one element is one step on the stack\<close>

lemma S_real:
  assumes nf: "NF r st" and re: "real_elem e" and t: "t = [] \<or> hd t = CHR ''/''"
  shows "Clean_loop r (render r st) (ddpos r st) (e @ t) =
         Clean_loop r (render r (step r st e)) (ddpos r (step r st e)) t"
proof -
  have ne: "e \<noteq> ''..''" using re by auto
  have dd: "ddpos r (st @ [e]) = ddpos r st"
    unfolding ddpos_def using ne by (simp add: takeWhile_snoc_not)
  have out: "(if r \<and> length (render r st) \<noteq> 1 \<or> \<not> r \<and> length (render r st) \<noteq> 0
              then render r st @ ''/'' else render r st) @ e = render r (st @ [e])"
    unfolding render_len_iff [OF nf] render_snoc by simp
  show ?thesis
    unfolding CL_elem [OF re t] out step_real [OF re] dd ..
qed

lemma S_dotdot_real:
  assumes nf: "NF r st" and st: "st \<noteq> []" and rl: "real_elem (last st)"
    and tw: "takeWhile (\<lambda>e. e = ''..'') (butlast st) = takeWhile (\<lambda>e. e = ''..'') st"
    and t: "t = [] \<or> hd t = CHR ''/''"
  shows "Clean_loop r (render r st) (ddpos r st) (''..'' @ t) =
         Clean_loop r (render r (butlast st)) (ddpos r (butlast st)) t"
proof -
  define xs x where "xs = butlast st" and "x = last st"
  have stx: "st = xs @ [x]" using st by (simp add: xs_def x_def)
  define s where "s = (if xs = [] then [] else ''/'')"
  have out: "render r st = render r xs @ s @ x"
    unfolding stx render_snoc s_def ..
  have xne: "x \<noteq> []" and xns: "CHR ''/'' \<notin> set x" and xdd: "x \<noteq> ''..''"
    using rl unfolding x_def real_elem_def by auto
  have dd: "ddpos r st = ddpos r xs"
    unfolding ddpos_def xs_def tw ..
  have cond: "(s = ''/'' \<and> ddpos r st \<le> length (render r xs)) \<or> (s = [] \<and> ddpos r st = length (render r xs))"
  proof (cases "xs = []")
    case True
    then show ?thesis unfolding dd s_def by (simp add: render_Nil_len)
  next
    case False
    have "ddpos r xs \<le> length (render r xs)"
      unfolding ddpos_def render_def using join_takeWhile_le [of "\<lambda>e. e = ''..''" xs]
      by (cases r) (auto simp: Suc_le_eq)
    with False show ?thesis unfolding dd s_def by simp
  qed
  have gt: "length (render r st) > ddpos r st"
    using cond xne unfolding out by (cases x) auto
  have bt: "take (backtrack (render r st) (ddpos r st) (length (render r st) - 1)) (render r st) = render r xs"
    unfolding out by (rule backtrack_elem [OF xns xne cond [unfolded out]])
  have "Clean_loop r (render r st) (ddpos r st) (CHR ''.'' # CHR ''.'' # t) =
        Clean_loop r (render r xs) (ddpos r st) t"
    unfolding CL_dotdot [OF t] using gt bt by simp
  then show ?thesis unfolding dd xs_def by simp
qed

lemma S_dotdot_dots:
  assumes r: "\<not> r" and all: "\<forall>e \<in> set st. e = ''..''" and t: "t = [] \<or> hd t = CHR ''/''"
  shows "Clean_loop r (render r st) (ddpos r st) (''..'' @ t) =
         Clean_loop r (render r (st @ [''..''])) (ddpos r (st @ [''..''])) t"
proof -
  have tw: "takeWhile (\<lambda>e. e = ''..'') st = st" using all by (simp add: takeWhile_eq_all_conv)
  have tw': "takeWhile (\<lambda>e. e = ''..'') (st @ [''..'']) = st @ [''..'']"
    using all by (simp add: takeWhile_eq_all_conv)
  have dd: "ddpos r st = length (render r st)"
    using r unfolding ddpos_def render_def tw by simp
  have dd': "ddpos r (st @ [''..'']) = length (render r (st @ [''..'']))"
    using r unfolding ddpos_def render_def tw' by simp
  have "join st = [] \<longleftrightarrow> st = []"
    using all by (intro join_empty_iff) auto
  then have out: "(if length (render r st) > 0 then render r st @ ''/'' else render r st) @ ''..''
       = render r (st @ [''..''])"
    using r unfolding render_snoc by (simp add: render_def)
  have "Clean_loop r (render r st) (ddpos r st) (CHR ''.'' # CHR ''.'' # t) =
        Clean_loop r (render r (st @ [''..''])) (length (render r (st @ [''..'']))) t"
    unfolding CL_dotdot [OF t] out using r dd by simp
  then show ?thesis unfolding dd' by simp
qed

lemma S_dotdot_root:
  assumes r: "r" and t: "t = [] \<or> hd t = CHR ''/''"
  shows "Clean_loop r (render r []) (ddpos r []) (''..'' @ t) =
         Clean_loop r (render r []) (ddpos r []) t"
proof -
  have "Clean_loop r (render r []) (ddpos r []) (CHR ''.'' # CHR ''.'' # t) =
        Clean_loop r (render r []) (ddpos r []) t"
    unfolding CL_dotdot [OF t] using r by (simp add: render_def ddpos_def)
  then show ?thesis by simp
qed

lemma S_step:
  assumes nf: "NF r st" and ns: "CHR ''/'' \<notin> set e" and ne: "e \<noteq> []"
    and t: "t = [] \<or> hd t = CHR ''/''"
  shows "Clean_loop r (render r st) (ddpos r st) (e @ t) =
         Clean_loop r (render r (step r st e)) (ddpos r (step r st e)) t"
  using elem_kinds [OF ne ns]
proof (elim disjE)
  assume "e = ''.''"
  then show ?thesis using CL_dot [OF t] by simp
next
  assume "real_elem e"
  then show ?thesis by (rule S_real [OF nf _ t])
next
  assume e: "e = ''..''"
  from NF_cases [OF nf] show ?thesis
  proof (elim disjE conjE)
    assume st: "st = []"
    show ?thesis
    proof (cases r)
      case True
      then show ?thesis unfolding e st using S_dotdot_root [OF True t] by (simp add: step_def)
    next
      case False
      have "step r [] ''..'' = [] @ [''..'']" using False by (simp add: step_def)
      then show ?thesis unfolding e st using S_dotdot_dots [OF False _ t, of "[]"] by simp
    qed
  next
    assume a: "st \<noteq> []" "real_elem (last st)"
      "takeWhile (\<lambda>e. e = ''..'') (butlast st) = takeWhile (\<lambda>e. e = ''..'') st"
    then have "last st \<noteq> ''..''" by auto
    with a have "step r st ''..'' = butlast st" by (simp add: step_def)
    then show ?thesis unfolding e using S_dotdot_real [OF nf a t] by simp
  next
    assume a: "st \<noteq> []" "\<not> r" "\<forall>e\<in>set st. e = ''..''"
    then have "last st = ''..''" using last_in_set by blast
    with a have "step r st ''..'' = st @ [''..'']" by (simp add: step_def)
    then show ?thesis unfolding e using S_dotdot_dots [OF a(2,3) t] by simp
  qed
qed

lemma Clean_loop_run:
  "NF r st \<Longrightarrow> Clean_loop r (render r st) (ddpos r st) p = render r (run r st p)"
proof (induction "length p" arbitrary: p st rule: less_induct)
  case less
  show ?case
  proof (cases p)
    case Nil
    then show ?thesis by (simp add: Clean_loop.simps)
  next
    case (Cons c rest)
    show ?thesis
    proof (cases "c = CHR ''/''")
      case True
      with Cons less show ?thesis by (simp add: CL_slash)
    next
      case False
      define e where "e = takeWhile (\<lambda>x. x \<noteq> CHR ''/'') p"
      define t where "t = dropWhile (\<lambda>x. x \<noteq> CHR ''/'') p"
      have p: "p = e @ t" unfolding e_def t_def by simp
      have ne: "e \<noteq> []" unfolding e_def using Cons False by simp
      have ns: "CHR ''/'' \<notin> set e" unfolding e_def by (auto dest: set_takeWhileD)
      have t: "t = [] \<or> hd t = CHR ''/''"
        unfolding t_def using hd_dropWhile [of "\<lambda>x. x \<noteq> CHR ''/''" p] by auto
      have lt: "length t < length p" unfolding p using ne by simp
      have "Clean_loop r (render r st) (ddpos r st) (e @ t) =
            Clean_loop r (render r (step r st e)) (ddpos r (step r st e)) t"
        by (rule S_step [OF less.prems ns ne t])
      also have "\<dots> = render r (run r (step r st e) t)"
        by (rule less.hyps [OF lt NF_step [OF less.prems ns]])
      also have "\<dots> = render r (run r st (e @ t))"
        by (simp only: run_elem [OF ns t])
      finally show ?thesis unfolding p .
    qed
  qed
qed

subsection \<open>Clean as a fold over the elements\<close>

lemma Clean_run: "Clean p = dot_if_empty (render (rooted p) (run (rooted p) [] p))"
proof (cases p)
  case Nil
  then show ?thesis by (simp add: Clean_def rooted_def render_def dot_if_empty_def)
next
  case (Cons c cs)
  show ?thesis
  proof (cases "c = CHR ''/''")
    case True
    have "Clean_loop True ''/'' 1 cs = render True (run True [] cs)"
      using Clean_loop_run [of True "[]" cs] by (simp add: render_def ddpos_def)
    then show ?thesis using Cons True
      by (simp add: Clean_def rooted_def dot_if_empty_def)
  next
    case False
    have "Clean_loop False [] 0 p = render False (run False [] p)"
      using Clean_loop_run [of False "[]" p] by (simp add: render_def ddpos_def)
    then show ?thesis using Cons False
      by (simp add: Clean_def rooted_def dot_if_empty_def)
  qed
qed

lemma split_path_noslash_elems: "e \<in> set (split_path p) \<Longrightarrow> CHR ''/'' \<notin> set e"
proof (induction p arbitrary: e)
  case Nil
  then show ?case by simp
next
  case (Cons c cs)
  obtain x xs where sp: "split_path cs = x # xs" using split_path_ne [of cs] by (cases "split_path cs") auto
  have x: "CHR ''/'' \<notin> set x" and xs: "\<And>y. y \<in> set xs \<Longrightarrow> CHR ''/'' \<notin> set y"
    using Cons.IH unfolding sp by auto
  from Cons.prems show ?case unfolding split_path.simps sp using x xs
    by (auto split: if_splits)
qed

lemma NF_foldl_step:
  "NF r st \<Longrightarrow> \<forall>e \<in> set es. CHR ''/'' \<notin> set e \<Longrightarrow> NF r (foldl (step r) st es)"
  by (induction es arbitrary: st) (simp_all add: NF_step)

lemma NF_run: "NF r st \<Longrightarrow> NF r (run r st p)"
  unfolding run_def by (rule NF_foldl_step) (auto dest: split_path_noslash_elems)

lemma join_hd:
  "st \<noteq> [] \<Longrightarrow> hd st \<noteq> [] \<Longrightarrow> join st \<noteq> [] \<and> hd (join st) = hd (hd st)"
  by (induction st rule: join.induct) auto

lemma join_last:
  "st \<noteq> [] \<Longrightarrow> last st \<noteq> [] \<Longrightarrow> join st \<noteq> [] \<and> last (join st) = last (last st)"
  by (induction st rule: join.induct) auto

lemma NF_prefix: "NF r (xs @ ys) \<Longrightarrow> NF r xs"
proof -
  assume nf: "NF r (xs @ ys)"
  have "set (dropWhile (\<lambda>e. e = ''..'') xs) \<subseteq> set (dropWhile (\<lambda>e. e = ''..'') (xs @ ys))"
  proof (cases "\<forall>e\<in>set xs. e = ''..''")
    case True
    then have "dropWhile (\<lambda>e. e = ''..'') xs = []" by simp
    then show ?thesis by (simp only: list.set empty_subsetI)
  next
    case False
    then show ?thesis by (auto simp: dropWhile_append)
  qed
  with nf show ?thesis unfolding NF_def by auto
qed

lemma step_NF_snoc:
  assumes "NF r (s0 @ [e])"
  shows "step r s0 e = s0 @ [e]"
proof -
  have ns: "CHR ''/'' \<notin> set e" and ne: "e \<noteq> []" using NF_elems [OF assms, of e] by auto
  from NF_cases [OF assms] show ?thesis
  proof (elim disjE conjE)
    assume "s0 @ [e] = []" then show ?thesis by simp
  next
    assume "real_elem (last (s0 @ [e]))"
    then show ?thesis by (simp add: step_real)
  next
    assume a: "\<not> r" "\<forall>x \<in> set (s0 @ [e]). x = ''..''"
    then have e: "e = ''..''" by simp
    from a have "s0 = [] \<or> last s0 = ''..''" by (cases s0 rule: rev_cases) auto
    with a(1) show ?thesis unfolding e step_def by auto
  qed
qed

lemma run_join:
  "NF r (s0 @ st) \<Longrightarrow> run r s0 (join st) = s0 @ st"
proof (induction st arbitrary: s0 rule: join.induct)
  case 1
  then show ?case by simp
next
  case (2 e)
  have ns: "CHR ''/'' \<notin> set e" using NF_elems [OF 2, of e] by auto
  have "run r s0 (e @ []) = run r (step r s0 e) []"
    by (rule run_elem [OF ns]) simp
  with step_NF_snoc [OF 2] show ?case by simp
next
  case (3 e v va)
  have ns: "CHR ''/'' \<notin> set e" using NF_elems [OF 3(2), of e] by auto
  have nf': "NF r ((s0 @ [e]) @ v # va)" using 3(2) by simp
  have st: "step r s0 e = s0 @ [e]"
    by (rule step_NF_snoc [OF NF_prefix [OF nf']])
  have "run r s0 (e @ CHR ''/'' # join (v # va)) = run r (step r s0 e) (CHR ''/'' # join (v # va))"
    by (rule run_elem [OF ns]) simp
  also have "\<dots> = run r (s0 @ [e]) (join (v # va))" unfolding st by simp
  also have "\<dots> = (s0 @ [e]) @ v # va" by (rule 3(1) [OF nf'])
  finally show ?case by simp
qed

lemma Clean_ne: "Clean p \<noteq> []"
  unfolding Clean_run dot_if_empty_def by simp

lemma Clean_render:
  assumes nf: "NF r st"
  shows "Clean (dot_if_empty (render r st)) = dot_if_empty (render r st)"
proof (cases "st = []")
  case True
  show ?thesis
  proof (cases r)
    case True
    with \<open>st = []\<close> show ?thesis
      unfolding Clean_run by (simp add: render_def dot_if_empty_def rooted_def run_def)
  next
    case False
    with \<open>st = []\<close> show ?thesis
      unfolding Clean_run by (simp add: render_def dot_if_empty_def rooted_def run_def split_path_noslash)
  qed
next
  case False
  have h: "hd st \<noteq> []" "CHR ''/'' \<notin> set (hd st)"
    using NF_elems [OF nf, of "hd st"] False by auto
  from join_hd [OF False h(1)] have jn: "join st \<noteq> []" and jh: "hd (join st) = hd (hd st)"
    by auto
  have jh': "hd (join st) \<noteq> CHR ''/''"
    unfolding jh using h by (cases "hd st") auto
  have rn: "run r [] (join st) = st" using run_join [of r "[]" st] nf by simp
  show ?thesis
  proof (cases r)
    case True
    have "rooted (render r st)" using True by (simp add: render_def rooted_def)
    moreover have "run r [] (render r st) = st" using True rn by (simp add: render_def)
    ultimately show ?thesis
      unfolding Clean_run [of "dot_if_empty (render r st)"] using True
      by (simp add: dot_if_empty_def render_def)
  next
    case nr: False
    have "\<not> rooted (render r st)" using nr jh' by (simp add: render_def rooted_def)
    moreover have "run r [] (render r st) = st" using nr rn by (simp add: render_def)
    ultimately show ?thesis
      unfolding Clean_run [of "dot_if_empty (render r st)"] using nr jn
      by (simp add: dot_if_empty_def render_def)
  qed
qed

lemma Clean_idem: "Clean (Clean p) = Clean p"
  unfolding Clean_run [of p] by (rule Clean_render [OF NF_run [OF NF_Nil]])

lemma Clean_snoc_slash: "p \<noteq> [] \<Longrightarrow> Clean (p @ ''/'') = Clean p"
proof -
  assume "p \<noteq> []"
  then have "rooted (p @ ''/'') = rooted p" by (cases p) (auto simp: rooted_def)
  then show ?thesis unfolding Clean_run by (simp add: run_snoc_slash)
qed

lemma Clean_last: "Clean p \<noteq> ''/'' \<Longrightarrow> last (Clean p) \<noteq> CHR ''/''"
proof -
  assume a: "Clean p \<noteq> ''/''"
  define r where "r = rooted p"
  define st where "st = run r [] p"
  have nf: "NF r st" unfolding st_def by (rule NF_run [OF NF_Nil])
  have c: "Clean p = dot_if_empty (render r st)" unfolding Clean_run r_def st_def ..
  show ?thesis
  proof (cases "st = []")
    case True
    with a c show ?thesis by (cases r) (auto simp: render_def dot_if_empty_def)
  next
    case False
    have h: "last st \<noteq> []" "CHR ''/'' \<notin> set (last st)"
      using NF_elems [OF nf, of "last st"] False by auto
    from join_last [OF False h(1)] have jn: "join st \<noteq> []" and jl: "last (join st) = last (last st)"
      by auto
    have "last (last st) \<in> set (last st)" using h(1) by simp
    with h(2) have "last (join st) \<noteq> CHR ''/''" unfolding jl by metis
    with jn show ?thesis unfolding c by (simp add: render_def dot_if_empty_def)
  qed
qed

subsection \<open>The bytes of a cleaned path\<close>

lemma split_path_chars: "e \<in> set (split_path p) \<Longrightarrow> set e \<subseteq> set p"
proof (induction p arbitrary: e)
  case Nil
  then show ?case by simp
next
  case (Cons c cs)
  obtain x xs where sp: "split_path cs = x # xs"
    using split_path_ne [of cs] by (cases "split_path cs") auto
  have x: "set x \<subseteq> set cs" and xs: "\<And>y. y \<in> set xs \<Longrightarrow> set y \<subseteq> set cs"
    using Cons.IH unfolding sp by auto
  from Cons.prems show ?case unfolding split_path.simps sp using x xs
    by (auto split: if_splits)
qed

lemma step_elems: "x \<in> set (step r st e) \<Longrightarrow> x \<in> set st \<or> x = e \<or> x = ''..''"
  unfolding step_def by (auto split: if_splits dest: in_set_butlastD)

lemma foldl_step_elems:
  "x \<in> set (foldl (step r) st es) \<Longrightarrow> x \<in> set st \<or> x \<in> set es \<or> x = ''..''"
proof (induction es arbitrary: st)
  case Nil
  then show ?case by simp
next
  case (Cons e es)
  from Cons.IH [of "step r st e"] Cons.prems
  have "x \<in> set (step r st e) \<or> x \<in> set es \<or> x = ''..''" by simp
  then show ?case using step_elems [of x r st e] by auto
qed

lemma join_chars: "set (join st) \<subseteq> \<Union> (set ` set st) \<union> {CHR ''/''}"
  by (induction st rule: join.induct) auto

lemma Clean_chars: "set (Clean p) \<subseteq> set p \<union> {CHR ''/'', CHR ''.''}"
proof
  fix c assume c: "c \<in> set (Clean p)"
  define r where "r = rooted p"
  define st where "st = run r [] p"
  have "set (Clean p) \<subseteq> set (join st) \<union> {CHR ''/'', CHR ''.''}"
    unfolding Clean_run r_def [symmetric] st_def [symmetric]
    by (auto simp: dot_if_empty_def render_def)
  with c join_chars [of st] consider "c = CHR ''/'' \<or> c = CHR ''.''" | e where "e \<in> set st" "c \<in> set e"
    by auto
  then show "c \<in> set p \<union> {CHR ''/'', CHR ''.''}"
  proof cases
    case 1 then show ?thesis by auto
  next
    case 2
    from foldl_step_elems [of e r "[]" "split_path p"] 2(1)
    have "e \<in> set (split_path p) \<or> e = ''..''" unfolding st_def run_def by simp
    then show ?thesis using 2(2) split_path_chars [of e p] by auto
  qed
qed

subsection \<open>The model on the cases of the test of package path\<close>

text \<open>The inputs and expected results of \<open>cleantests\<close> in the test file of package path.\<close>

lemma Clean_cleantests:
  "map Clean
     ['''', ''abc'', ''abc/def'', ''a/b/c'', ''.'', ''..'', ''../..'', ''../../abc'', ''/abc'', ''/'',
      ''abc/'', ''abc/def/'', ''a/b/c/'', ''./'', ''../'', ''../../'', ''/abc/'',
      ''abc//def//ghi'', ''//abc'', ''///abc'', ''//abc//'', ''abc//'',
      ''abc/./def'', ''/./abc/def'', ''abc/.'',
      ''abc/def/ghi/../jkl'', ''abc/def/../ghi/../jkl'', ''abc/def/..'', ''abc/def/../..'',
      ''/abc/def/../..'', ''abc/def/../../..'', ''/abc/def/../../..'',
      ''abc/def/../../../ghi/jkl/../../../mno'',
      ''abc/./../def'', ''abc//./../def'', ''abc/../../././../def'']
   = [''.'', ''abc'', ''abc/def'', ''a/b/c'', ''.'', ''..'', ''../..'', ''../../abc'', ''/abc'', ''/'',
      ''abc'', ''abc/def'', ''a/b/c'', ''.'', ''..'', ''../..'', ''/abc'',
      ''abc/def/ghi'', ''/abc'', ''/abc'', ''/abc'', ''abc'',
      ''abc/def'', ''/abc/def'', ''abc'',
      ''abc/def/jkl'', ''abc/jkl'', ''abc'', ''.'',
      ''/'', ''..'', ''/'',
      ''../../mno'',
      ''def'', ''def'', ''../../def'']"
  by code_simp

section \<open>Properties of \<open>sanitize\<close>\<close>

lemma HasSuffix_slash: "HasSuffix s ''/'' \<longleftrightarrow> s \<noteq> [] \<and> last s = CHR ''/''"
proof (cases s rule: rev_cases)
  case Nil
  then show ?thesis by (simp add: HasSuffix_def)
next
  case (snoc xs x)
  then show ?thesis by (auto simp: HasSuffix_def)
qed

lemma HasSuffix_slash_snoc [simp]: "HasSuffix (s @ ''/'') ''/''"
  by (simp add: HasSuffix_slash)

lemma HasSuffix_Clean: "HasSuffix (Clean x) ''/'' \<longleftrightarrow> Clean x = ''/''"
  using Clean_last [of x] Clean_ne [of x] by (auto simp: HasSuffix_slash)

lemma HasSuffix_two_slashes: "HasSuffix (c @ ''/'') ''//'' \<longleftrightarrow> HasSuffix c ''/''"
proof (cases c rule: rev_cases)
  case Nil
  then show ?thesis by (simp add: HasSuffix_def)
next
  case (snoc xs x)
  then show ?thesis by (auto simp: HasSuffix_def)
qed

lemma ReplaceAll_absent: "old \<notin> set s \<Longrightarrow> ReplaceAll s old new = s"
  unfolding ReplaceAll_def by (induction s) auto

lemma ReplaceAll_removes: "old \<noteq> new \<Longrightarrow> old \<notin> set (ReplaceAll s old new)"
  unfolding ReplaceAll_def by (induction s) auto

lemma ReplaceAll_append: "ReplaceAll (s @ t) old new = ReplaceAll s old new @ ReplaceAll t old new"
  unfolding ReplaceAll_def by simp

lemma HasSuffix_strip:
  "HasSuffix (ReplaceAll (volumePrefixRegex_ReplaceAllString p) (CHR 0x5C) (CHR ''/'')) ''/''
   \<longleftrightarrow> HasSuffix (ReplaceAll p (CHR 0x5C) (CHR ''/'')) ''/''"
proof (cases "volumePrefixRegex_Match p")
  case False
  then show ?thesis by (simp add: volumePrefixRegex_ReplaceAllString_def)
next
  case True
  then obtain a rest where p: "p = a # CHR '':'' # rest"
    by (auto simp: volumePrefixRegex_Match_def split: list.splits)
  have s: "volumePrefixRegex_ReplaceAllString p = rest"
    using True by (simp add: volumePrefixRegex_ReplaceAllString_def p)
  show ?thesis unfolding s unfolding p
    by (cases rest rule: rev_cases) (auto simp: HasSuffix_slash ReplaceAll_def)
qed

text \<open>A string that TrimSpace empties consists of white-space bytes: ASCII white space and
  bytes of multi-byte encodings, so it has no slash, backslash, colon or letter.\<close>

lemma spaceRuneWidth_le: "spaceRuneWidth s \<le> length s"
  by (simp add: spaceRuneWidth_def split: list.splits)

lemma space_bytes:
  assumes "c \<in> set (take (spaceRuneWidth s) s)"
  shows "asciiSpace c \<or> 128 \<le> (of_char c :: nat)"
proof (cases s)
  case Nil
  with assms show ?thesis by simp
next
  case s1: (Cons a t)
  show ?thesis
  proof (cases "asciiSpace a")
    case True
    with assms s1 show ?thesis by (simp add: spaceRuneWidth_def)
  next
    case na: False
    show ?thesis
    proof (cases t)
      case Nil
      with assms s1 na show ?thesis by (simp add: spaceRuneWidth_def)
    next
      case s2: (Cons b u)
      show ?thesis
      proof (cases "a = CHR 0xC2 \<and> (b = CHR 0x85 \<or> b = CHR 0xA0)")
        case True
        with assms s1 s2 na show ?thesis by (auto simp: spaceRuneWidth_def)
      next
        case n2: False
        show ?thesis
        proof (cases u)
          case Nil
          with assms s1 s2 na n2 show ?thesis by (simp add: spaceRuneWidth_def)
        next
          case s3: (Cons c' v)
          have w: "spaceRuneWidth s = 3 \<or> spaceRuneWidth s = 0"
            using s1 s2 s3 na n2 by (simp add: spaceRuneWidth_def)
          show ?thesis
          proof (cases "spaceRuneWidth s = 0")
            case True
            with assms show ?thesis by simp
          next
            case False
            with w have w3: "spaceRuneWidth s = 3" by simp
            have hi: "128 \<le> (of_char a :: nat) \<and> 128 \<le> (of_char b :: nat) \<and> 128 \<le> (of_char c' :: nat)"
              using w3 s1 s2 s3 na n2
              by (auto simp: spaceRuneWidth_def split: if_splits)
            have "take 3 s = [a, b, c']" unfolding s1 s2 s3 by simp
            with assms have "c = a \<or> c = b \<or> c = c'" unfolding w3 by auto
            with hi show ?thesis by auto
          qed
        qed
      qed
    qed
  qed
qed

lemma blank_bytes:
  "TrimLeftSpace s = [] \<Longrightarrow> c \<in> set s \<Longrightarrow> asciiSpace c \<or> 128 \<le> (of_char c :: nat)"
proof (induction s rule: TrimLeftSpace.induct)
  case (1 s)
  show ?case
  proof (cases "spaceRuneWidth s = 0")
    case True
    with 1(2) have "s = []" by (subst (asm) TrimLeftSpace.simps) simp
    with 1(3) show ?thesis by simp
  next
    case False
    with 1(2) have rest: "TrimLeftSpace (drop (spaceRuneWidth s) s) = []"
      by (subst (asm) TrimLeftSpace.simps) simp
    have "set s = set (take (spaceRuneWidth s) s) \<union> set (drop (spaceRuneWidth s) s)"
      by (metis append_take_drop_id set_append)
    with 1(3) consider "c \<in> set (take (spaceRuneWidth s) s)" | "c \<in> set (drop (spaceRuneWidth s) s)"
      by auto
    then show ?thesis
    proof cases
      case 1
      then show ?thesis by (rule space_bytes)
    next
      case 2
      from "1.IH" [OF False rest 2] show ?thesis .
    qed
  qed
qed

lemma blank_chars:
  assumes "TrimSpace_is_empty s" and "c \<in> set s"
  shows "c \<noteq> CHR ''/''" and "c \<noteq> CHR 0x5C" and "c \<noteq> CHR '':''" and "\<not> isAlpha c"
  using blank_bytes [OF assms(1) [unfolded TrimSpace_is_empty_def] assms(2)]
  by (auto simp: asciiSpace_def isAlpha_def)

lemma TrimSpace_is_empty_Nil: "TrimSpace_is_empty []"
  unfolding TrimSpace_is_empty_def by (subst TrimLeftSpace.simps) (simp add: spaceRuneWidth_def)

lemma sanitize_nonblank:
  "\<not> TrimSpace_is_empty p \<Longrightarrow>
   sanitize p =
     Clean (ReplaceAll (volumePrefixRegex_ReplaceAllString p) (CHR 0x5C) (CHR ''/''))
     @ (if HasSuffix (ReplaceAll (volumePrefixRegex_ReplaceAllString p) (CHR 0x5C) (CHR ''/'')) ''/''
        then ''/'' else [])"
  by (simp add: sanitize_def Let_def)

lemma sanitize_blank: "TrimSpace_is_empty p \<Longrightarrow> sanitize p = p"
  by (simp add: sanitize_def)

lemma Clean_no_backslash: "CHR 0x5C \<notin> set x \<Longrightarrow> CHR 0x5C \<notin> set (Clean x)"
  using Clean_chars [of x] by auto

lemma sanitize_no_backslash: "CHR 0x5C \<notin> set (sanitize p)"
proof (cases "TrimSpace_is_empty p")
  case True
  then show ?thesis using blank_chars(2) [OF True] by (auto simp: sanitize_blank)
next
  case False
  have "CHR 0x5C \<notin> set (Clean (ReplaceAll (volumePrefixRegex_ReplaceAllString p) (CHR 0x5C) (CHR ''/'')))"
    by (rule Clean_no_backslash) (simp add: ReplaceAll_removes)
  then show ?thesis unfolding sanitize_nonblank [OF False] by simp
qed

lemma Clean_Clean_slash: "Clean (Clean x @ ''/'') = Clean x"
  using Clean_snoc_slash [OF Clean_ne [of x]] by (simp add: Clean_idem)

lemma sanitize_no_prefix:
  assumes nb: "\<not> TrimSpace_is_empty q" and nv: "\<not> volumePrefixRegex_Match q"
    and bs: "CHR 0x5C \<notin> set q"
  shows "sanitize q = Clean q @ (if HasSuffix q ''/'' then ''/'' else [])"
  unfolding sanitize_nonblank [OF nb] using nv bs
  by (simp add: volumePrefixRegex_ReplaceAllString_def ReplaceAll_absent)

lemma sanitize_empty_iff: "sanitize p = [] \<longleftrightarrow> p = []"
proof (cases "TrimSpace_is_empty p")
  case True
  then show ?thesis by (simp add: sanitize_blank)
next
  case False
  then have "p \<noteq> []" using TrimSpace_is_empty_Nil by auto
  moreover have "sanitize p \<noteq> []" unfolding sanitize_nonblank [OF False] using Clean_ne by simp
  ultimately show ?thesis by simp
qed

lemma Fs_sanitize_empty_iff: "Fs_sanitize fs name = [] \<longleftrightarrow> name = []"
  by (simp add: Fs_sanitize_def sanitize_empty_iff)

text \<open>The inputs that the specification names: a Windows path with a volume prefix, a path
  with a \<open>..\<close> segment and trailing separator, doubled backslashes, white space and the
  empty string.\<close>

lemma sanitize_examples:
  "sanitize (''C:'' @ [CHR 0x5C] @ ''a'' @ [CHR 0x5C] @ ''b'') = ''/a/b''"
  "sanitize ''/a/../b/'' = ''/b/''"
  "sanitize (''a'' @ [CHR 0x5C, CHR 0x5C] @ ''b'' @ [CHR 0x5C, CHR 0x5C]) = ''a/b/''"
  "sanitize ''   '' = ''   ''"
  "sanitize [] = []"
  by code_simp+

text \<open>C3: \<open>sanitize (sanitize p) = sanitize p\<close> for every \<open>p\<close>. As stated this fails:
  only one volume prefix is stripped, so \<open>C:C:a\<close> gives \<open>C:a\<close> and then \<open>a\<close>; and a path
  without trailing separator that cleans to the root gives \<open>/\<close>, which has a trailing
  separator and gives \<open>//\<close>. Amended: \<open>sanitize\<close> is idempotent at every \<open>p\<close> whose
  sanitized form does not start with a volume prefix and is not the root \<open>/\<close>; this covers
  the empty string, white space, a Windows path with a volume prefix and backslashes, a path
  with \<open>..\<close> segments and a path of doubled backslashes.\<close>

theorem sanitize_idempotent:
  assumes nv: "\<not> volumePrefixRegex_Match (sanitize p)" and nr: "sanitize p \<noteq> ''/''"
  shows "sanitize (sanitize p) = sanitize p"
proof (cases "TrimSpace_is_empty (sanitize p)")
  case True
  then show ?thesis by (rule sanitize_blank)
next
  case False
  then have nb: "\<not> TrimSpace_is_empty p" by (auto simp: sanitize_blank)
  define y where "y = ReplaceAll (volumePrefixRegex_ReplaceAllString p) (CHR 0x5C) (CHR ''/'')"
  have q: "sanitize p = Clean y @ (if HasSuffix y ''/'' then ''/'' else [])"
    unfolding y_def by (rule sanitize_nonblank [OF nb])
  have sq: "sanitize (sanitize p) = Clean (sanitize p) @ (if HasSuffix (sanitize p) ''/'' then ''/'' else [])"
    by (rule sanitize_no_prefix [OF False nv sanitize_no_backslash])
  show ?thesis
  proof (cases "HasSuffix y ''/''")
    case True
    then have q': "sanitize p = Clean y @ ''/''" using q by simp
    show ?thesis unfolding sq unfolding q' by (simp add: Clean_Clean_slash)
  next
    case nt: False
    then have q': "sanitize p = Clean y" using q by simp
    have "\<not> HasSuffix (Clean y) ''/''" using nr unfolding q' by (simp add: HasSuffix_Clean)
    then show ?thesis unfolding sq unfolding q' by (simp add: Clean_idem)
  qed
qed

theorem sanitize_idempotent_witness:
  "(\<not> volumePrefixRegex_Match (sanitize []) \<and> sanitize [] \<noteq> ''/''
      \<and> sanitize (sanitize []) = sanitize [])
   \<and> (\<not> volumePrefixRegex_Match (sanitize ''  '') \<and> sanitize ''  '' \<noteq> ''/''
      \<and> sanitize (sanitize ''  '') = sanitize ''  '')
   \<and> (\<not> volumePrefixRegex_Match (sanitize (''C:'' @ [CHR 0x5C] @ ''a'' @ [CHR 0x5C] @ ''b''))
      \<and> sanitize (''C:'' @ [CHR 0x5C] @ ''a'' @ [CHR 0x5C] @ ''b'') \<noteq> ''/''
      \<and> sanitize (sanitize (''C:'' @ [CHR 0x5C] @ ''a'' @ [CHR 0x5C] @ ''b''))
          = sanitize (''C:'' @ [CHR 0x5C] @ ''a'' @ [CHR 0x5C] @ ''b''))
   \<and> (\<not> volumePrefixRegex_Match (sanitize ''/a/../b/'') \<and> sanitize ''/a/../b/'' \<noteq> ''/''
      \<and> sanitize (sanitize ''/a/../b/'') = sanitize ''/a/../b/'')
   \<and> (\<not> volumePrefixRegex_Match (sanitize (''a'' @ [CHR 0x5C, CHR 0x5C] @ ''b'' @ [CHR 0x5C, CHR 0x5C]))
      \<and> sanitize (''a'' @ [CHR 0x5C, CHR 0x5C] @ ''b'' @ [CHR 0x5C, CHR 0x5C]) \<noteq> ''/''
      \<and> sanitize (sanitize (''a'' @ [CHR 0x5C, CHR 0x5C] @ ''b'' @ [CHR 0x5C, CHR 0x5C]))
          = sanitize (''a'' @ [CHR 0x5C, CHR 0x5C] @ ''b'' @ [CHR 0x5C, CHR 0x5C]))"
proof -
  have a1: "\<not> volumePrefixRegex_Match (sanitize [])" and a2: "sanitize [] \<noteq> ''/''"
    by code_simp+
  have b1: "\<not> volumePrefixRegex_Match (sanitize ''  '')" and b2: "sanitize ''  '' \<noteq> ''/''"
    by code_simp+
  have c1: "\<not> volumePrefixRegex_Match (sanitize (''C:'' @ [CHR 0x5C] @ ''a'' @ [CHR 0x5C] @ ''b''))"
    and c2: "sanitize (''C:'' @ [CHR 0x5C] @ ''a'' @ [CHR 0x5C] @ ''b'') \<noteq> ''/''"
    by code_simp+
  have d1: "\<not> volumePrefixRegex_Match (sanitize ''/a/../b/'')" and d2: "sanitize ''/a/../b/'' \<noteq> ''/''"
    by code_simp+
  have e1: "\<not> volumePrefixRegex_Match (sanitize (''a'' @ [CHR 0x5C, CHR 0x5C] @ ''b'' @ [CHR 0x5C, CHR 0x5C]))"
    and e2: "sanitize (''a'' @ [CHR 0x5C, CHR 0x5C] @ ''b'' @ [CHR 0x5C, CHR 0x5C]) \<noteq> ''/''"
    by code_simp+
  show ?thesis
    using sanitize_idempotent [OF a1 a2] sanitize_idempotent [OF b1 b2]
      sanitize_idempotent [OF c1 c2] sanitize_idempotent [OF d1 d2]
      sanitize_idempotent [OF e1 e2] a1 a2 b1 b2 c1 c2 d1 d2 e1 e2
    by blast
qed

theorem sanitize_not_idempotent:
  "sanitize (sanitize ''C:C:a'') \<noteq> sanitize ''C:C:a''
   \<and> sanitize (sanitize ''/.'') \<noteq> sanitize ''/.''"
  by code_simp

text \<open>C8: for a non-blank input whose backslash-converted form ends in a separator the output
  ends in exactly one separator, and for one that does not, the output does not end in a
  separator. As stated this fails where the path cleans to the root: \<open>/\<close> gives \<open>//\<close>, and
  \<open>/.\<close>, which has no trailing separator, gives \<open>/\<close>. Amended: for every non-blank input,
  if the converted form ends in a separator the output ends in a separator, and in one only
  unless the output is \<open>//\<close>; if it does not, the output does not end in a separator unless
  it is the root \<open>/\<close>.\<close>

theorem sanitize_trailing_separator:
  assumes nb: "\<not> TrimSpace_is_empty p"
  shows "if HasSuffix (ReplaceAll p (CHR 0x5C) (CHR ''/'')) ''/''
         then HasSuffix (sanitize p) ''/''
              \<and> (sanitize p \<noteq> ''//'' \<longrightarrow> \<not> HasSuffix (sanitize p) ''//'')
         else (sanitize p \<noteq> ''/'' \<longrightarrow> \<not> HasSuffix (sanitize p) ''/'')"
proof -
  define y where "y = ReplaceAll (volumePrefixRegex_ReplaceAllString p) (CHR 0x5C) (CHR ''/'')"
  have q: "sanitize p = Clean y @ (if HasSuffix y ''/'' then ''/'' else [])"
    unfolding y_def by (rule sanitize_nonblank [OF nb])
  have hs: "HasSuffix (ReplaceAll p (CHR 0x5C) (CHR ''/'')) ''/'' \<longleftrightarrow> HasSuffix y ''/''"
    unfolding y_def by (rule HasSuffix_strip [symmetric])
  show ?thesis
  proof (cases "HasSuffix y ''/''")
    case True
    then have q': "sanitize p = Clean y @ ''/''" using q by simp
    have "Clean y \<noteq> ''/'' \<longrightarrow> \<not> HasSuffix (Clean y @ ''/'') ''//''"
      by (simp add: HasSuffix_two_slashes HasSuffix_Clean)
    with True show ?thesis unfolding hs q' by simp
  next
    case False
    then have q': "sanitize p = Clean y" using q by simp
    have "Clean y \<noteq> ''/'' \<longrightarrow> \<not> HasSuffix (Clean y) ''/''"
      by (simp add: HasSuffix_Clean)
    with False show ?thesis unfolding hs q' by simp
  qed
qed

theorem sanitize_trailing_separator_witness:
  "(\<not> TrimSpace_is_empty ''dir/'' \<and> sanitize ''dir/'' \<noteq> ''//''
      \<and> HasSuffix (ReplaceAll ''dir/'' (CHR 0x5C) (CHR ''/'')) ''/''
      \<and> HasSuffix (sanitize ''dir/'') ''/'' \<and> \<not> HasSuffix (sanitize ''dir/'') ''//'')
   \<and> (\<not> TrimSpace_is_empty ''dir'' \<and> sanitize ''dir'' \<noteq> ''/''
      \<and> \<not> HasSuffix (ReplaceAll ''dir'' (CHR 0x5C) (CHR ''/'')) ''/''
      \<and> \<not> HasSuffix (sanitize ''dir'') ''/'')"
proof -
  have a: "\<not> TrimSpace_is_empty ''dir/''" by code_simp
  have a3: "sanitize ''dir/'' \<noteq> ''//''" by code_simp
  have a4: "HasSuffix (ReplaceAll ''dir/'' (CHR 0x5C) (CHR ''/'')) ''/''" by code_simp
  have b: "\<not> TrimSpace_is_empty ''dir''" by code_simp
  have b2: "sanitize ''dir'' \<noteq> ''/''" by code_simp
  have b4: "\<not> HasSuffix (ReplaceAll ''dir'' (CHR 0x5C) (CHR ''/'')) ''/''" by code_simp
  show ?thesis
    using sanitize_trailing_separator [OF a] sanitize_trailing_separator [OF b] a a3 a4 b b2 b4
    by (simp only: if_True if_False simp_thms)
qed

theorem sanitize_trailing_separator_root:
  "\<not> TrimSpace_is_empty ''/'' \<and> HasSuffix (ReplaceAll ''/'' (CHR 0x5C) (CHR ''/'')) ''/''
     \<and> HasSuffix (sanitize ''/'') ''//''
   \<and> \<not> TrimSpace_is_empty ''/.'' \<and> \<not> HasSuffix (ReplaceAll ''/.'' (CHR 0x5C) (CHR ''/'')) ''/''
     \<and> HasSuffix (sanitize ''/.'') ''/''"
  by code_simp

section \<open>Stat\<close>

text \<open>C5: Stat returns a not-found error exactly when the head request fails with status 404,
  the listing (MaxKeys 1) returns a key count of zero and the path is not empty; when the
  head request fails with 404 and the listing returns at least one key, Stat returns a
  directory record of size 0 with the time \<open>Unix 0 0\<close>, after the two calls head and list.\<close>

theorem Stat_not_found_iff:
  "((\<exists>fi path. fst (Stat e fs name tr) = Returns (fi, Some (PathError ''stat'' path ErrNotExist)))
      \<longleftrightarrow>
      (s3_HeadObject e tr (Bucket fs) (Fs_sanitize fs name) = Inl (RequestFailure 404)
       \<and> (\<exists>out. s3_ListObjectsV2 e (tr @ [HeadObject (Bucket fs) (Fs_sanitize fs name)]) (Bucket fs)
                   (TrimPrefix (Clean (Fs_sanitize fs name)) ''/'') 1 = Inr out
                 \<and> KeyCount out = Some 0)
       \<and> name \<noteq> []))
   \<and> (\<forall>out k.
        s3_HeadObject e tr (Bucket fs) (Fs_sanitize fs name) = Inl (RequestFailure 404)
        \<and> s3_ListObjectsV2 e (tr @ [HeadObject (Bucket fs) (Fs_sanitize fs name)]) (Bucket fs)
             (TrimPrefix (Clean (Fs_sanitize fs name)) ''/'') 1 = Inr out
        \<and> KeyCount out = Some k \<and> 1 \<le> k
        \<longrightarrow> Stat e fs name tr =
              (Returns (Some \<lparr>fi_name = Base (Fs_sanitize fs name), fi_directory = True,
                               fi_sizeInBytes = 0, fi_modTime = Unix 0 0\<rparr>, None),
               tr @ [HeadObject (Bucket fs) (Fs_sanitize fs name),
                     ListObjectsV2 (Bucket fs) (TrimPrefix (Clean (Fs_sanitize fs name)) ''/'') 1]))"
proof -
  define n where "n = Fs_sanitize fs name"
  define h where "h = s3_HeadObject e tr (Bucket fs) n"
  define l where "l = s3_ListObjectsV2 e (tr @ [HeadObject (Bucket fs) n]) (Bucket fs)
                        (TrimPrefix (Clean n) ''/'') 1"
  have ne: "n \<noteq> [] \<longleftrightarrow> name \<noteq> []" unfolding n_def by (simp add: Fs_sanitize_empty_iff)
  have sd: "fst (statDirectory e fs n (tr @ [HeadObject (Bucket fs) n])) =
      (case l of
         Inl err \<Rightarrow> Returns (Some FileInfo_zero, Some (PathError ''stat'' n (AwsError err)))
       | Inr out \<Rightarrow>
           (case KeyCount out of None \<Rightarrow> Panics
            | Some k \<Rightarrow> if k = 0 \<and> n \<noteq> [] then Returns (None, Some (PathError ''stat'' n ErrNotExist))
                        else Returns (Some (NewFileInfo (Base n) True 0 (Unix 0 0)), None)))"
    unfolding statDirectory_def l_def Let_def
    by (simp split: sum.splits option.splits)
  have A: "(\<exists>fi path. fst (Stat e fs name tr) = Returns (fi, Some (PathError ''stat'' path ErrNotExist)))
      \<longleftrightarrow> (h = Inl (RequestFailure 404) \<and> (\<exists>out. l = Inr out \<and> KeyCount out = Some 0) \<and> name \<noteq> [])"
  proof (cases h)
    case (Inr out)
    then show ?thesis unfolding Stat_def Let_def n_def [symmetric] h_def [symmetric]
      by (simp split: option.splits)
  next
    case (Inl err)
    show ?thesis
    proof (cases err)
      case (OtherFailure m)
      with Inl show ?thesis unfolding Stat_def Let_def n_def [symmetric] h_def [symmetric]
        by simp
    next
      case (RequestFailure code)
      show ?thesis
      proof (cases "code = 404")
        case False
        with Inl RequestFailure show ?thesis
          unfolding Stat_def Let_def n_def [symmetric] h_def [symmetric] by simp
      next
        case True
        have "fst (Stat e fs name tr) = fst (statDirectory e fs n (tr @ [HeadObject (Bucket fs) n]))"
          using Inl RequestFailure True
          unfolding Stat_def Let_def n_def [symmetric] h_def [symmetric] by simp
        then show ?thesis unfolding sd using Inl RequestFailure True ne
          by (auto simp: NewFileInfo_def split: sum.splits option.splits)
      qed
    qed
  qed
  have B: "\<And>out k. h = Inl (RequestFailure 404) \<Longrightarrow> l = Inr out \<Longrightarrow> KeyCount out = Some k \<Longrightarrow> 1 \<le> k \<Longrightarrow>
      Stat e fs name tr =
        (Returns (Some \<lparr>fi_name = Base n, fi_directory = True, fi_sizeInBytes = 0,
                         fi_modTime = Unix 0 0\<rparr>, None),
         tr @ [HeadObject (Bucket fs) n, ListObjectsV2 (Bucket fs) (TrimPrefix (Clean n) ''/'') 1])"
    unfolding Stat_def statDirectory_def Let_def n_def [symmetric] h_def l_def
    by (simp add: NewFileInfo_def)
  show ?thesis
    using A B unfolding h_def l_def n_def by blast
qed

theorem Stat_not_found_iff_witness:
  "(\<exists>fi path. fst (Stat (env_ok\<lparr>s3_HeadObject := (\<lambda>tr b k. Inl (RequestFailure 404))\<rparr>)
                    fs_example ''dir'' []) = Returns (fi, Some (PathError ''stat'' path ErrNotExist)))
   \<and> Stat (env_ok\<lparr>s3_HeadObject := (\<lambda>tr b k. Inl (RequestFailure 404)),
                  s3_ListObjectsV2 := (\<lambda>tr b p n. Inr \<lparr>KeyCount = Some 1\<rparr>)\<rparr>) fs_example ''dir'' [] =
       (Returns (Some \<lparr>fi_name = ''dir'', fi_directory = True, fi_sizeInBytes = 0,
                        fi_modTime = Unix 0 0\<rparr>, None),
        [HeadObject ''bucket'' ''dir'', ListObjectsV2 ''bucket'' ''dir'' 1])"
proof -
  have s: "Fs_sanitize fs_example ''dir'' = ''dir''" unfolding Fs_sanitize_def fs_example_def
    by (simp, code_simp)
  have c: "Clean ''dir'' = ''dir''" by code_simp
  have b: "Base ''dir'' = ''dir''" by code_simp
  have t: "TrimPrefix ''dir'' ''/'' = ''dir''" by code_simp
  have bk: "Bucket fs_example = ''bucket''" by (simp add: fs_example_def)
  note th1 = Stat_not_found_iff [of "env_ok\<lparr>s3_HeadObject := (\<lambda>tr b k. Inl (RequestFailure 404))\<rparr>"
      fs_example "''dir''" "[]", THEN conjunct1]
  note th2 = Stat_not_found_iff [of "env_ok\<lparr>s3_HeadObject := (\<lambda>tr b k. Inl (RequestFailure 404)),
                  s3_ListObjectsV2 := (\<lambda>tr b p n. Inr \<lparr>KeyCount = Some 1\<rparr>)\<rparr>"
      fs_example "''dir''" "[]", THEN conjunct2, rule_format, of "\<lparr>KeyCount = Some 1\<rparr>" 1]
  have 1: "\<exists>fi path. fst (Stat (env_ok\<lparr>s3_HeadObject := (\<lambda>tr b k. Inl (RequestFailure 404))\<rparr>)
                    fs_example ''dir'' []) = Returns (fi, Some (PathError ''stat'' path ErrNotExist))"
    unfolding th1 by (simp add: env_ok_def)
  have 2: "Stat (env_ok\<lparr>s3_HeadObject := (\<lambda>tr b k. Inl (RequestFailure 404)),
                  s3_ListObjectsV2 := (\<lambda>tr b p n. Inr \<lparr>KeyCount = Some 1\<rparr>)\<rparr>) fs_example ''dir'' [] =
       (Returns (Some \<lparr>fi_name = ''dir'', fi_directory = True, fi_sizeInBytes = 0,
                        fi_modTime = Unix 0 0\<rparr>, None),
        [HeadObject ''bucket'' ''dir'', ListObjectsV2 ''bucket'' ''dir'' 1])"
    using th2 unfolding s c b t bk by simp
  from 1 2 show ?thesis by (rule conjI)
qed

section \<open>Rename\<close>

lemma sanitize_b: "sanitize ''b'' = ''b''"
  by code_simp

lemma sanitize_root_dot: "sanitize ''/.'' = ''/''"
  by code_simp

lemma sanitize_root: "sanitize ''/'' = ''//''"
  by code_simp

text \<open>The first assignment of Rename overwrites \<open>oldname\<close>: the result does not depend on
  the old argument.\<close>

lemma Rename_old_unused: "Rename e fs old new tr = Rename e fs old' new tr"
  by (simp add: Rename_def)

text \<open>C1: Rename is to copy the object at the normalized old key to the normalized new key and
  then delete the normalized old key. The code overwrites \<open>oldname\<close> with the sanitized
  \<open>newname\<close> before it reads it, so the old argument is never used: renaming \<open>a\<close> to \<open>b\<close>
  issues no copy and no delete at all.\<close>

theorem Rename_ignores_old:
  "Rename e fs_example ''a'' ''b'' tr = (None, tr)"
  by (simp add: Rename_def fs_example_def Fs_sanitize_def sanitize_b)

text \<open>C2: when old and new normalize to the same value, Rename is to return no error and
  issue no store call. The code compares the sanitized new name with its own second
  sanitization instead; for old = new = \<open>/.\<close> these are \<open>/\<close> and \<open>//\<close>, and a copy and a
  delete are issued.\<close>

theorem Rename_same_path_copies:
  "sanitize ''/.'' = sanitize ''/.'' \<and>
   Rename env_ok fs_example ''/.'' ''/.'' [] =
     (None, [CopyObject ''bucket'' ''bucket/'' ''//'', DeleteObject ''bucket'' ''/''])"
  by (simp add: Rename_def fs_example_def Fs_sanitize_def sanitize_root_dot sanitize_root
      env_ok_def Let_def)

section \<open>Create\<close>

lemma sanitize_a_b: "sanitize ''a//b'' = ''a/b''"
  by code_simp

lemma Ext_a_b: "Ext ''a//b'' = []"
  by code_simp

text \<open>The first call of Create is the put, and its key is the name as given.\<close>

lemma applyFileCreateProps_key:
  "put_Key (applyFileCreateProps req p) = put_Key req"
  "put_Bucket (applyFileCreateProps req p) = put_Bucket req"
  "put_Body (applyFileCreateProps req p) = put_Body req"
  by (simp_all add: applyFileCreateProps_def Let_def)

lemma Create_put_request:
  "\<exists>req rest. snd (Create e fs name tr) = tr @ PutObject req # rest
      \<and> put_Bucket req = Bucket fs \<and> put_Key req = name \<and> put_Body req = []"
proof -
  define req where "req =
    (let req0 = \<lparr>put_Bucket = Bucket fs, put_Key = name, put_Body = [], put_ACL = None,
                 put_CacheControl = None, put_ContentType = None, put_ContentEncoding = None\<rparr>;
         req1 = (case FileProps fs of None \<Rightarrow> req0 | Some p \<Rightarrow> applyFileCreateProps req0 p)
     in if put_ContentType req1 = None
        then req1\<lparr>put_ContentType := Some (mime_TypeByExtension e (Ext name))\<rparr>
        else req1)"
  have f: "put_Bucket req = Bucket fs \<and> put_Key req = name \<and> put_Body req = []"
    unfolding req_def Let_def by (simp add: applyFileCreateProps_key split: option.splits)
  have "\<exists>rest. snd (OpenFile e fs name O_WRONLY 488 (tr @ [PutObject req])) = tr @ PutObject req # rest"
    unfolding OpenFile_def Let_def by (simp split: sum.splits)
  then have "\<exists>rest. snd (Create e fs name tr) = tr @ PutObject req # rest"
    unfolding Create_def req_def Let_def
    by (auto split: option.splits prod.splits)
  with f show ?thesis by blast
qed

text \<open>C4: Create is to put the empty object at the normalized path and to wait for the same
  normalized key. The code never sanitizes \<open>name\<close> in Create: for \<open>a//b\<close> the put and the
  readiness wait use the key \<open>a//b\<close>, while the handle that OpenFile returns is on \<open>a/b\<close>.\<close>

theorem Create_put_key_not_sanitized:
  "Fs_sanitize fs_example ''a//b'' = ''a/b'' \<and>
   snd (Create env_ok fs_example ''a//b'' []) =
     [PutObject \<lparr>put_Bucket = ''bucket'', put_Key = ''a//b'', put_Body = [], put_ACL = None,
                 put_CacheControl = None, put_ContentType = Some [], put_ContentEncoding = None\<rparr>,
      FileOpenWriteStream (NewFile fs_example ''a/b''),
      WaitUntilObjectExists ''bucket'' ''a//b'']"
  by (simp add: Create_def OpenFile_def fs_example_def Fs_sanitize_def sanitize_a_b Ext_a_b
      env_ok_def Let_def O_WRONLY_def O_RDWR_def O_APPEND_def O_CREATE_def)

section \<open>OpenFile\<close>

text \<open>C6: for every path and every flag set that includes the read-write flag, and likewise
  for every flag set that includes the append flag, whatever the other flags, OpenFile fails
  with ErrNotSupported, returns no handle and issues no call.\<close>

theorem OpenFile_RDWR_or_APPEND_not_supported:
  "flag AND O_RDWR \<noteq> 0 \<or> flag AND O_APPEND \<noteq> 0 \<Longrightarrow>
   OpenFile e fs name flag perm tr = ((None, Some ErrNotSupported), tr)"
  by (auto simp: OpenFile_def Let_def)

theorem OpenFile_RDWR_or_APPEND_not_supported_witness:
  "OpenFile env_ok fs_example ''a/b'' (O_RDWR OR O_CREATE) 420 [] = ((None, Some ErrNotSupported), [])
   \<and> OpenFile env_ok fs_example ''a/b'' (O_APPEND OR O_WRONLY) 420 [] = ((None, Some ErrNotSupported), [])
   \<and> (O_RDWR OR O_CREATE) AND O_RDWR \<noteq> 0 \<and> (O_APPEND OR O_WRONLY) AND O_APPEND \<noteq> 0"
proof -
  have a: "(O_RDWR OR O_CREATE) AND O_RDWR \<noteq> 0"
    by (simp add: O_RDWR_def O_CREATE_def)
  have b: "(O_APPEND OR O_WRONLY) AND O_APPEND \<noteq> 0"
    by (simp add: O_APPEND_def O_WRONLY_def)
  show ?thesis
    using OpenFile_RDWR_or_APPEND_not_supported [of "O_RDWR OR O_CREATE" env_ok fs_example "''a/b''" 420 "[]"]
      OpenFile_RDWR_or_APPEND_not_supported [of "O_APPEND OR O_WRONLY" env_ok fs_example "''a/b''" 420 "[]"]
      a b by simp
qed

section \<open>Chmod\<close>

text \<open>C7: for every path and mode, the access-control level that Chmod sets is a function of
  the "other" read bit (bit 2) and the "other" write bit (bit 1) of the mode only: both set
  gives public-read-write, the read bit alone public-read, anything else (the write bit
  alone too) private. The request goes to the sanitized name.\<close>

theorem Chmod_acl_from_other_bits:
  "Chmod e fs name mode tr =
     (map_option AwsError (s3_PutObjectAcl e tr (Bucket fs) (Fs_sanitize fs name)
        (if bit mode 2 \<and> bit mode 1 then ''public-read-write''
         else if bit mode 2 then ''public-read'' else ''private'')),
      tr @ [PutObjectAcl (Bucket fs) (Fs_sanitize fs name)
        (if bit mode 2 \<and> bit mode 1 then ''public-read-write''
         else if bit mode 2 then ''public-read'' else ''private'')])"
  unfolding Chmod_def Let_def bit_iff_and_push_bit_not_eq_0 [symmetric] by simp

section \<open>Mkdir and MkdirAll\<close>

text \<open>With the flag \<open>O_CREATE\<close> OpenFile opens the write stream of the handle on the
  sanitized name; the marker object is what that handle writes when it is closed.\<close>

lemma OpenFile_O_CREATE:
  "OpenFile e fs n O_CREATE perm tr =
     ((Some (NewFile fs (Fs_sanitize fs n)),
       file_openWriteStream e tr (NewFile fs (Fs_sanitize fs n))),
      tr @ [FileOpenWriteStream (NewFile fs (Fs_sanitize fs n))])"
  by (simp add: OpenFile_def Let_def O_CREATE_def O_RDWR_def O_APPEND_def O_WRONLY_def)

lemma Mkdir_calls:
  "Mkdir e fs name perm tr =
     (case file_openWriteStream e tr (NewFile fs (Fs_sanitize fs (Clean (Fs_sanitize fs name) @ ''/''))) of
        Some err \<Rightarrow>
          (Returns (Some err),
           tr @ [FileOpenWriteStream (NewFile fs (Fs_sanitize fs (Clean (Fs_sanitize fs name) @ ''/'')))])
      | None \<Rightarrow>
          (Returns (file_Close e
             (tr @ [FileOpenWriteStream (NewFile fs (Fs_sanitize fs (Clean (Fs_sanitize fs name) @ ''/'')))])
             (NewFile fs (Fs_sanitize fs (Clean (Fs_sanitize fs name) @ ''/'')))),
           tr @ [FileOpenWriteStream (NewFile fs (Fs_sanitize fs (Clean (Fs_sanitize fs name) @ ''/''))),
                 FileClose (NewFile fs (Fs_sanitize fs (Clean (Fs_sanitize fs name) @ ''/'')))]))"
  unfolding Mkdir_def Let_def OpenFile_O_CREATE by (simp split: option.splits)

lemma nonblank_slash: "CHR ''/'' \<in> set s \<Longrightarrow> \<not> TrimSpace_is_empty s"
  using blank_chars(1) by blast

lemma Match_snoc_slash:
  "c \<noteq> [] \<Longrightarrow> volumePrefixRegex_Match (c @ ''/'') \<longleftrightarrow> volumePrefixRegex_Match c"
proof -
  assume "c \<noteq> []"
  then obtain a t where c: "c = a # t" by (cases c) auto
  show ?thesis unfolding c by (cases t) (auto simp: volumePrefixRegex_Match_def)
qed

text \<open>Sanitizing a cleaned, backslash-free path without volume prefix, with a separator
  appended, changes nothing.\<close>

lemma sanitize_Clean_slash:
  assumes nv: "\<not> volumePrefixRegex_Match (Clean s)" and bs: "CHR 0x5C \<notin> set s"
  shows "sanitize (Clean s @ ''/'') = Clean s @ ''/''"
proof -
  have nb: "\<not> TrimSpace_is_empty (Clean s @ ''/'')" by (rule nonblank_slash) simp
  have nv': "\<not> volumePrefixRegex_Match (Clean s @ ''/'')"
    using nv by (simp add: Match_snoc_slash [OF Clean_ne])
  have bs': "CHR 0x5C \<notin> set (Clean s @ ''/'')"
    using Clean_no_backslash [OF bs] by simp
  show ?thesis
    unfolding sanitize_no_prefix [OF nb nv' bs']
    by (simp add: Clean_Clean_slash Clean_idem)
qed

lemma Mkdir_key_plain:
  assumes "RawMode fs \<or> \<not> volumePrefixRegex_Match (Clean (Fs_sanitize fs name))"
  shows "Fs_sanitize fs (Clean (Fs_sanitize fs name) @ ''/'') = Clean (Fs_sanitize fs name) @ ''/''"
proof (cases "RawMode fs")
  case True
  then show ?thesis by (simp add: Fs_sanitize_def)
next
  case False
  with assms have nv: "\<not> volumePrefixRegex_Match (Clean (sanitize name))"
    by (simp add: Fs_sanitize_def)
  show ?thesis using False sanitize_Clean_slash [OF nv sanitize_no_backslash]
    by (simp add: Fs_sanitize_def)
qed

lemma strip_snoc_slash:
  "n \<noteq> [] \<Longrightarrow>
   volumePrefixRegex_ReplaceAllString (n @ ''/'') = volumePrefixRegex_ReplaceAllString n @ ''/''"
proof -
  assume "n \<noteq> []"
  then obtain a t where n: "n = a # t" by (cases n) auto
  show ?thesis unfolding n
    by (cases t) (auto simp: volumePrefixRegex_ReplaceAllString_def volumePrefixRegex_Match_def)
qed

lemma strip_empty_iff:
  "volumePrefixRegex_ReplaceAllString n = [] \<longleftrightarrow> n = [] \<or> (volumePrefixRegex_Match n \<and> length n = 2)"
proof (cases n)
  case Nil
  then show ?thesis by (simp add: volumePrefixRegex_ReplaceAllString_def)
next
  case n1: (Cons a t)
  show ?thesis
  proof (cases t)
    case Nil
    with n1 show ?thesis
      by (simp add: volumePrefixRegex_ReplaceAllString_def volumePrefixRegex_Match_def)
  next
    case (Cons b u)
    with n1 show ?thesis
      by (auto simp: volumePrefixRegex_ReplaceAllString_def volumePrefixRegex_Match_def)
  qed
qed

lemma Clean_sanitize:
  "\<not> TrimSpace_is_empty n \<Longrightarrow>
   Clean (sanitize n) = Clean (ReplaceAll (volumePrefixRegex_ReplaceAllString n) (CHR 0x5C) (CHR ''/''))"
  unfolding sanitize_def Let_def by (simp add: Clean_idem Clean_Clean_slash)

lemma ReplaceAll_empty_iff: "ReplaceAll s old new = [] \<longleftrightarrow> s = []"
  by (simp add: ReplaceAll_def)

lemma Clean_sanitize_snoc_slash:
  assumes ne: "n \<noteq> []" and nbare: "\<not> (volumePrefixRegex_Match n \<and> length n = 2)"
  shows "Clean (sanitize (n @ ''/'')) = Clean (sanitize n)"
proof -
  have nb': "\<not> TrimSpace_is_empty (n @ ''/'')" by (rule nonblank_slash) simp
  define y where "y = ReplaceAll (volumePrefixRegex_ReplaceAllString n) (CHR 0x5C) (CHR ''/'')"
  have y': "ReplaceAll (volumePrefixRegex_ReplaceAllString (n @ ''/'')) (CHR 0x5C) (CHR ''/'') = y @ ''/''"
    unfolding strip_snoc_slash [OF ne] ReplaceAll_append y_def by (simp add: ReplaceAll_def)
  have yne: "y \<noteq> []" unfolding y_def ReplaceAll_empty_iff strip_empty_iff using ne nbare by simp
  have l: "Clean (sanitize (n @ ''/'')) = Clean y"
    unfolding Clean_sanitize [OF nb'] y' by (rule Clean_snoc_slash [OF yne])
  show ?thesis
  proof (cases "TrimSpace_is_empty n")
    case False
    show ?thesis unfolding l unfolding Clean_sanitize [OF False] y_def ..
  next
    case True
    have "\<not> volumePrefixRegex_Match n"
    proof
      assume "volumePrefixRegex_Match n"
      then obtain a t where "n = a # t" "isAlpha a"
        by (auto simp: volumePrefixRegex_Match_def split: list.splits)
      with blank_chars(4) [OF True, of a] show False by simp
    qed
    moreover have "CHR 0x5C \<notin> set n" using blank_chars(2) [OF True] by blast
    ultimately have "y = n"
      unfolding y_def by (simp add: volumePrefixRegex_ReplaceAllString_def ReplaceAll_absent)
    then show ?thesis unfolding l by (simp add: sanitize_blank [OF True])
  qed
qed

lemma Clean_Fs_sanitize_snoc_slash:
  assumes "name \<noteq> []" and "RawMode fs \<or> \<not> (volumePrefixRegex_Match name \<and> length name = 2)"
  shows "Clean (Fs_sanitize fs (name @ ''/'')) = Clean (Fs_sanitize fs name)"
proof (cases "RawMode fs")
  case True
  then show ?thesis using Clean_snoc_slash [OF assms(1)] by (simp add: Fs_sanitize_def)
next
  case False
  with assms(2) have "\<not> (volumePrefixRegex_Match name \<and> length name = 2)" by simp
  from Clean_sanitize_snoc_slash [OF assms(1) this] False show ?thesis
    by (simp add: Fs_sanitize_def)
qed

lemma sanitize_dir_slash: "sanitize ''dir/'' = ''dir/''"
  by code_simp

lemma sanitize_dir: "sanitize ''dir'' = ''dir''"
  by code_simp

lemma Clean_dir_slash: "Clean ''dir/'' = ''dir''"
  by code_simp

lemma Clean_dir: "Clean ''dir'' = ''dir''"
  by code_simp

lemma Match_dir: "\<not> volumePrefixRegex_Match ''dir''"
  by code_simp

lemma sanitize_CCa: "sanitize ''C:C:a'' = ''C:a''"
  by code_simp

lemma Clean_Ca: "Clean ''C:a'' = ''C:a''"
  by code_simp

lemma sanitize_Ca_slash: "sanitize ''C:a/'' = ''a/''"
  by code_simp

lemma sanitize_C: "sanitize ''C:'' = ''.''"
  by code_simp

lemma sanitize_C_slash: "sanitize ''C:/'' = ''//''"
  by code_simp

lemma Clean_dot: "Clean ''.'' = ''.''"
  by code_simp

lemma Clean_two_slashes: "Clean ''//'' = ''/''"
  by code_simp

lemma sanitize_dot_slash: "sanitize ''./'' = ''./''"
  by code_simp

lemma sanitize_two_slashes: "sanitize ''//'' = ''//''"
  by code_simp

text \<open>C9: Mkdir writes its marker at the key \<open>Clean (sanitized name) + "/"\<close>, a key with a
  single trailing separator, the same for a name with and without trailing separator, and
  MkdirAll does the same. As stated this fails: OpenFile sanitizes the key again, so for
  \<open>C:C:a\<close> the marker goes to \<open>a/\<close> and not to \<open>C:a/\<close>; and the bare volume prefix
  \<open>C:\<close> gives the key \<open>./\<close> while \<open>C:/\<close> gives \<open>//\<close>. Amended: Mkdir opens, and on
  success closes, the write stream of the handle on the sanitized form of
  \<open>Clean (sanitized name) + "/"\<close>; when the cleaned name starts with no volume prefix, or in
  raw mode, that key is \<open>Clean (sanitized name) + "/"\<close>, which ends in one separator only
  unless the cleaned name is the root; a non-empty name that is not a bare volume prefix, and
  any non-empty name in raw mode, gives the same result with a separator appended; MkdirAll
  is Mkdir.\<close>

theorem Mkdir_marker_key:
  "let cleaned = Clean (Fs_sanitize fs name);
       key = Fs_sanitize fs (cleaned @ ''/'');
       f = NewFile fs key
   in Mkdir e fs name perm tr =
        (case file_openWriteStream e tr f of
           Some err \<Rightarrow> (Returns (Some err), tr @ [FileOpenWriteStream f])
         | None \<Rightarrow>
             (Returns (file_Close e (tr @ [FileOpenWriteStream f]) f),
              tr @ [FileOpenWriteStream f, FileClose f]))
      \<and> (RawMode fs \<or> \<not> volumePrefixRegex_Match cleaned \<longrightarrow>
            key = cleaned @ ''/'' \<and> (cleaned \<noteq> ''/'' \<longrightarrow> \<not> HasSuffix key ''//''))
      \<and> (name \<noteq> [] \<and> (RawMode fs \<or> \<not> (volumePrefixRegex_Match name \<and> length name = 2)) \<longrightarrow>
            Mkdir e fs (name @ ''/'') perm tr = Mkdir e fs name perm tr)
      \<and> MkdirAll e fs name perm tr = Mkdir e fs name perm tr"
  unfolding Let_def
proof (intro conjI impI)
  show "Mkdir e fs name perm tr =
     (case file_openWriteStream e tr (NewFile fs (Fs_sanitize fs (Clean (Fs_sanitize fs name) @ ''/''))) of
        Some err \<Rightarrow>
          (Returns (Some err),
           tr @ [FileOpenWriteStream (NewFile fs (Fs_sanitize fs (Clean (Fs_sanitize fs name) @ ''/'')))])
      | None \<Rightarrow>
          (Returns (file_Close e
             (tr @ [FileOpenWriteStream (NewFile fs (Fs_sanitize fs (Clean (Fs_sanitize fs name) @ ''/'')))])
             (NewFile fs (Fs_sanitize fs (Clean (Fs_sanitize fs name) @ ''/'')))),
           tr @ [FileOpenWriteStream (NewFile fs (Fs_sanitize fs (Clean (Fs_sanitize fs name) @ ''/''))),
                 FileClose (NewFile fs (Fs_sanitize fs (Clean (Fs_sanitize fs name) @ ''/'')))]))"
    by (rule Mkdir_calls)
next
  assume "RawMode fs \<or> \<not> volumePrefixRegex_Match (Clean (Fs_sanitize fs name))"
  then show "Fs_sanitize fs (Clean (Fs_sanitize fs name) @ ''/'') = Clean (Fs_sanitize fs name) @ ''/''"
    by (rule Mkdir_key_plain)
next
  assume a: "RawMode fs \<or> \<not> volumePrefixRegex_Match (Clean (Fs_sanitize fs name))"
    and r: "Clean (Fs_sanitize fs name) \<noteq> ''/''"
  show "\<not> HasSuffix (Fs_sanitize fs (Clean (Fs_sanitize fs name) @ ''/'')) ''//''"
    unfolding Mkdir_key_plain [OF a] using r by (simp add: HasSuffix_two_slashes HasSuffix_Clean)
next
  assume "name \<noteq> [] \<and> (RawMode fs \<or> \<not> (volumePrefixRegex_Match name \<and> length name = 2))"
  then have "Clean (Fs_sanitize fs (name @ ''/'')) = Clean (Fs_sanitize fs name)"
    using Clean_Fs_sanitize_snoc_slash by blast
  then show "Mkdir e fs (name @ ''/'') perm tr = Mkdir e fs name perm tr"
    unfolding Mkdir_def Let_def by simp
next
  show "MkdirAll e fs name perm tr = Mkdir e fs name perm tr" by (simp add: MkdirAll_def)
qed

theorem Mkdir_marker_key_witness:
  "\<not> volumePrefixRegex_Match (Clean (Fs_sanitize fs_example ''dir''))
   \<and> Clean (Fs_sanitize fs_example ''dir'') \<noteq> ''/'' \<and> ''dir'' \<noteq> []
   \<and> \<not> volumePrefixRegex_Match ''dir''
   \<and> Mkdir env_ok fs_example ''dir'' 493 [] =
       (Returns None, [FileOpenWriteStream (NewFile fs_example ''dir/''),
                       FileClose (NewFile fs_example ''dir/'')])
   \<and> \<not> HasSuffix ''dir/'' ''//''
   \<and> Mkdir env_ok fs_example ''dir/'' 493 [] = Mkdir env_ok fs_example ''dir'' 493 []
   \<and> MkdirAll env_ok fs_example ''dir'' 493 [] = Mkdir env_ok fs_example ''dir'' 493 []"
proof -
  have s: "Fs_sanitize fs_example ''dir'' = ''dir''"
    by (simp add: Fs_sanitize_def fs_example_def sanitize_dir)
  have h1: "\<not> volumePrefixRegex_Match (Clean (Fs_sanitize fs_example ''dir''))"
    unfolding s Clean_dir by (rule Match_dir)
  have h2: "Clean (Fs_sanitize fs_example ''dir'') \<noteq> ''/''" unfolding s Clean_dir by simp
  note th = Mkdir_marker_key [of fs_example "''dir''" env_ok 493 "[]", unfolded Let_def]
  note A = th [THEN conjunct1]
  note HB = th [THEN conjunct2, THEN conjunct1]
  note DE = th [THEN conjunct2, THEN conjunct2, THEN conjunct1]
  note F = th [THEN conjunct2, THEN conjunct2, THEN conjunct2]
  from HB h1 have B: "Fs_sanitize fs_example (Clean (Fs_sanitize fs_example ''dir'') @ ''/'')
      = Clean (Fs_sanitize fs_example ''dir'') @ ''/''" by blast
  then have key: "Fs_sanitize fs_example (Clean (Fs_sanitize fs_example ''dir'') @ ''/'') = ''dir/''"
    unfolding s Clean_dir by simp
  from HB h1 h2 have "\<not> HasSuffix (Fs_sanitize fs_example (Clean (Fs_sanitize fs_example ''dir'') @ ''/'')) ''//''"
    by blast
  then have ns: "\<not> HasSuffix ''dir/'' ''//''" unfolding key .
  from A have 1: "Mkdir env_ok fs_example ''dir'' 493 [] =
       (Returns None, [FileOpenWriteStream (NewFile fs_example ''dir/''),
                       FileClose (NewFile fs_example ''dir/'')])"
    unfolding key by (simp add: env_ok_def)
  from DE Match_dir have "Mkdir env_ok fs_example (''dir'' @ ''/'') 493 [] = Mkdir env_ok fs_example ''dir'' 493 []"
    by blast
  then have 2: "Mkdir env_ok fs_example ''dir/'' 493 [] = Mkdir env_ok fs_example ''dir'' 493 []"
    by simp
  note 3 = F
  from h1 h2 Match_dir 1 ns 2 3 show ?thesis by blast
qed

theorem Mkdir_volume_prefix_key:
  "Clean (Fs_sanitize fs_example ''C:C:a'') @ ''/'' = ''C:a/''
   \<and> Mkdir env_ok fs_example ''C:C:a'' 493 [] =
       (Returns None, [FileOpenWriteStream (NewFile fs_example ''a/''),
                       FileClose (NewFile fs_example ''a/'')])
   \<and> Mkdir env_ok fs_example ''C:'' 493 [] =
       (Returns None, [FileOpenWriteStream (NewFile fs_example ''./''),
                       FileClose (NewFile fs_example ''./'')])
   \<and> Mkdir env_ok fs_example ''C:/'' 493 [] =
       (Returns None, [FileOpenWriteStream (NewFile fs_example ''//''),
                       FileClose (NewFile fs_example ''//'')])"
proof -
  have s: "Fs_sanitize fs_example ''C:C:a'' = ''C:a''"
    by (simp add: Fs_sanitize_def fs_example_def sanitize_CCa)
  have k: "Fs_sanitize fs_example ''C:a/'' = ''a/''"
    by (simp add: Fs_sanitize_def fs_example_def sanitize_Ca_slash)
  have s2: "Fs_sanitize fs_example ''C:'' = ''.''"
    by (simp add: Fs_sanitize_def fs_example_def sanitize_C)
  have k2: "Fs_sanitize fs_example ''./'' = ''./''"
    by (simp add: Fs_sanitize_def fs_example_def sanitize_dot_slash)
  have s3: "Fs_sanitize fs_example ''C:/'' = ''//''"
    by (simp add: Fs_sanitize_def fs_example_def sanitize_C_slash)
  have k3: "Fs_sanitize fs_example ''//'' = ''//''"
    by (simp add: Fs_sanitize_def fs_example_def sanitize_two_slashes)
  have 1: "Clean (Fs_sanitize fs_example ''C:C:a'') @ ''/'' = ''C:a/''"
    unfolding s Clean_Ca by simp
  have 2: "Mkdir env_ok fs_example ''C:C:a'' 493 [] =
       (Returns None, [FileOpenWriteStream (NewFile fs_example ''a/''),
                       FileClose (NewFile fs_example ''a/'')])"
    unfolding Mkdir_calls s Clean_Ca by (simp add: k env_ok_def)
  have 3: "Mkdir env_ok fs_example ''C:'' 493 [] =
       (Returns None, [FileOpenWriteStream (NewFile fs_example ''./''),
                       FileClose (NewFile fs_example ''./'')])"
    unfolding Mkdir_calls s2 Clean_dot by (simp add: k2 env_ok_def)
  have 4: "Mkdir env_ok fs_example ''C:/'' 493 [] =
       (Returns None, [FileOpenWriteStream (NewFile fs_example ''//''),
                       FileClose (NewFile fs_example ''//'')])"
    unfolding Mkdir_calls s3 Clean_two_slashes by (simp add: k3 env_ok_def)
  from 1 2 3 4 show ?thesis by blast
qed

section \<open>RemoveAll\<close>

lemma RemoveAll_success_last:
  "RemoveAll k e fs name tr = Some (None, tr') \<Longrightarrow>
   tr' \<noteq> [] \<and> last tr' = DeleteObject (Bucket fs) (Fs_sanitize fs name @ ''/'')"
proof (cases k)
  case 0
  assume "RemoveAll k e fs name tr = Some (None, tr')"
  with 0 show ?thesis by simp
next
  case (Suc n)
  assume "RemoveAll k e fs name tr = Some (None, tr')"
  then show ?thesis unfolding Suc
    by (auto simp: Let_def forceRemove_def NewFile_def split: sum.splits option.splits prod.splits)
qed

lemma RemoveAll_empty_directory:
  "file_Readdir e tr (NewFile fs (Fs_sanitize fs name)) 0 = Inr [] \<Longrightarrow>
   RemoveAll (Suc k) e fs name tr =
     Some (map_option AwsError
             (s3_DeleteObject e (tr @ [FileReaddir (NewFile fs (Fs_sanitize fs name)) 0]) (Bucket fs)
                (Fs_sanitize fs name @ ''/'')),
           tr @ [FileReaddir (NewFile fs (Fs_sanitize fs name)) 0,
                 DeleteObject (Bucket fs) (Fs_sanitize fs name @ ''/'')])"
  by (simp add: Let_def forceRemove_def NewFile_def)

lemma sanitize_snoc_slash_form:
  "\<exists>y. sanitize (c @ ''/'') = Clean y @ ''/''"
proof -
  have nb: "\<not> TrimSpace_is_empty (c @ ''/'')" by (rule nonblank_slash) simp
  have "HasSuffix (ReplaceAll (c @ ''/'') (CHR 0x5C) (CHR ''/'')) ''/''"
    by (simp add: ReplaceAll_append) (simp add: ReplaceAll_def)
  then have "HasSuffix (ReplaceAll (volumePrefixRegex_ReplaceAllString (c @ ''/'')) (CHR 0x5C) (CHR ''/'')) ''/''"
    by (simp only: HasSuffix_strip)
  then show ?thesis unfolding sanitize_nonblank [OF nb] by auto
qed

lemma Mkdir_key_form:
  "\<exists>y. Fs_sanitize fs (Clean s @ ''/'') = Clean y @ ''/''"
proof (cases "RawMode fs")
  case True
  then show ?thesis by (auto simp: Fs_sanitize_def)
next
  case False
  then show ?thesis using sanitize_snoc_slash_form [of "Clean s"] by (simp add: Fs_sanitize_def)
qed

lemma RemoveAll_key_ne_Mkdir_key:
  assumes sl: "HasSuffix s ''/''" and nr: "s \<noteq> ''/''"
  shows "s @ ''/'' \<noteq> Fs_sanitize fs (Clean s @ ''/'')"
proof
  assume eq: "s @ ''/'' = Fs_sanitize fs (Clean s @ ''/'')"
  obtain y where "Fs_sanitize fs (Clean s @ ''/'') = Clean y @ ''/''" using Mkdir_key_form by blast
  with eq have s: "s = Clean y" by simp
  with sl have "Clean y = ''/''" by (simp add: HasSuffix_Clean)
  with s nr show False by simp
qed

lemma Mkdir_opens:
  "FileOpenWriteStream (NewFile fs K) \<in> set (snd (Mkdir e fs name perm [])) \<Longrightarrow>
   K = Fs_sanitize fs (Clean (Fs_sanitize fs name) @ ''/'')"
  unfolding Mkdir_calls by (auto simp: NewFile_def split: option.splits)

lemma Mkdir_dir_slash:
  "Mkdir env_ok fs_example ''dir/'' 493 [] =
     (Returns None, [FileOpenWriteStream (NewFile fs_example ''dir/''),
                     FileClose (NewFile fs_example ''dir/'')])"
  unfolding Mkdir_calls
  by (simp add: Fs_sanitize_def fs_example_def sanitize_dir_slash Clean_dir_slash env_ok_def)

lemma Clean_root: "Clean ''/'' = ''/''"
  by code_simp

text \<open>C10: for a name whose sanitized form ends in a separator, the last deletion of
  RemoveAll targets the sanitized name with one more separator, a key ending in two
  separators, which is not the key of the marker that Mkdir creates for the name. As stated
  this fails when the sanitized form is the root: for \<open>/.\<close> both RemoveAll and Mkdir address
  \<open>//\<close>. Amended: a successful RemoveAll ends with the deletion of the sanitized name plus
  one separator (for an empty directory it is the only call after the listing), that key
  ends in two separators, and unless the sanitized form is \<open>/\<close> Mkdir opens no handle on
  that key.\<close>

theorem RemoveAll_marker_key:
  assumes "HasSuffix (Fs_sanitize fs name) ''/''"
  shows "(\<forall>tr'. RemoveAll k e fs name tr = Some (None, tr') \<longrightarrow>
            tr' \<noteq> [] \<and> last tr' = DeleteObject (Bucket fs) (Fs_sanitize fs name @ ''/''))
     \<and> (file_Readdir e tr (NewFile fs (Fs_sanitize fs name)) 0 = Inr [] \<longrightarrow>
          RemoveAll (Suc k) e fs name tr =
            Some (map_option AwsError
                    (s3_DeleteObject e (tr @ [FileReaddir (NewFile fs (Fs_sanitize fs name)) 0])
                       (Bucket fs) (Fs_sanitize fs name @ ''/'')),
                  tr @ [FileReaddir (NewFile fs (Fs_sanitize fs name)) 0,
                        DeleteObject (Bucket fs) (Fs_sanitize fs name @ ''/'')]))
     \<and> HasSuffix (Fs_sanitize fs name @ ''/'') ''//''
     \<and> (Fs_sanitize fs name \<noteq> ''/'' \<longrightarrow>
          FileOpenWriteStream (NewFile fs (Fs_sanitize fs name @ ''/''))
            \<notin> set (snd (Mkdir e' fs name perm [])))"
proof (intro conjI allI impI)
  fix tr' assume "RemoveAll k e fs name tr = Some (None, tr')"
  from RemoveAll_success_last [OF this]
  show "tr' \<noteq> []" and "last tr' = DeleteObject (Bucket fs) (Fs_sanitize fs name @ ''/'')"
    by simp_all
next
  assume "file_Readdir e tr (NewFile fs (Fs_sanitize fs name)) 0 = Inr []"
  then show "RemoveAll (Suc k) e fs name tr =
            Some (map_option AwsError
                    (s3_DeleteObject e (tr @ [FileReaddir (NewFile fs (Fs_sanitize fs name)) 0])
                       (Bucket fs) (Fs_sanitize fs name @ ''/'')),
                  tr @ [FileReaddir (NewFile fs (Fs_sanitize fs name)) 0,
                        DeleteObject (Bucket fs) (Fs_sanitize fs name @ ''/'')])"
    by (rule RemoveAll_empty_directory)
next
  show "HasSuffix (Fs_sanitize fs name @ ''/'') ''//''"
    using assms by (simp add: HasSuffix_two_slashes)
next
  assume nr: "Fs_sanitize fs name \<noteq> ''/''"
  show "FileOpenWriteStream (NewFile fs (Fs_sanitize fs name @ ''/''))
            \<notin> set (snd (Mkdir e' fs name perm []))"
    using Mkdir_opens [of fs "Fs_sanitize fs name @ ''/''" e' name perm]
      RemoveAll_key_ne_Mkdir_key [OF assms nr, of fs] by blast
qed

theorem RemoveAll_marker_key_witness:
  "HasSuffix (Fs_sanitize fs_example ''dir/'') ''/'' \<and> Fs_sanitize fs_example ''dir/'' \<noteq> ''/''
   \<and> RemoveAll 1 env_ok fs_example ''dir/'' [] =
       Some (None, [FileReaddir (NewFile fs_example ''dir/'') 0, DeleteObject ''bucket'' ''dir//''])
   \<and> HasSuffix ''dir//'' ''//''
   \<and> Mkdir env_ok fs_example ''dir/'' 493 [] =
       (Returns None, [FileOpenWriteStream (NewFile fs_example ''dir/''),
                       FileClose (NewFile fs_example ''dir/'')])
   \<and> FileOpenWriteStream (NewFile fs_example ''dir//'')
       \<notin> set (snd (Mkdir env_ok fs_example ''dir/'' 493 []))"
proof -
  have s: "Fs_sanitize fs_example ''dir/'' = ''dir/''"
    by (simp add: Fs_sanitize_def fs_example_def sanitize_dir_slash)
  have h: "HasSuffix (Fs_sanitize fs_example ''dir/'') ''/''" unfolding s by (simp add: HasSuffix_def)
  have n: "Fs_sanitize fs_example ''dir/'' \<noteq> ''/''" unfolding s by simp
  have rd: "file_Readdir env_ok [] (NewFile fs_example (Fs_sanitize fs_example ''dir/'')) 0 = Inr []"
    by (simp add: env_ok_def)
  note th = RemoveAll_marker_key [OF h, of 0 env_ok "[]" env_ok 493]
  from th rd have 1: "RemoveAll 1 env_ok fs_example ''dir/'' [] =
       Some (None, [FileReaddir (NewFile fs_example ''dir/'') 0, DeleteObject ''bucket'' ''dir//''])"
    unfolding s by (simp add: env_ok_def fs_example_def)
  from th have 2: "HasSuffix ''dir//'' ''//''" unfolding s by simp
  from th n have 3: "FileOpenWriteStream (NewFile fs_example ''dir//'')
       \<notin> set (snd (Mkdir env_ok fs_example ''dir/'' 493 []))" unfolding s by simp
  from h n 1 2 3 Mkdir_dir_slash show ?thesis by blast
qed

theorem RemoveAll_root_same_key_as_Mkdir:
  "HasSuffix (Fs_sanitize fs_example ''/.'') ''/''
   \<and> RemoveAll 1 env_ok fs_example ''/.'' [] =
       Some (None, [FileReaddir (NewFile fs_example ''/'') 0, DeleteObject ''bucket'' ''//''])
   \<and> Mkdir env_ok fs_example ''/.'' 493 [] =
       (Returns None, [FileOpenWriteStream (NewFile fs_example ''//''),
                       FileClose (NewFile fs_example ''//'')])"
proof -
  have s: "Fs_sanitize fs_example ''/.'' = ''/''"
    by (simp add: Fs_sanitize_def fs_example_def sanitize_root_dot)
  have k: "Fs_sanitize fs_example ''//'' = ''//''"
    by (simp add: Fs_sanitize_def fs_example_def sanitize_two_slashes)
  have 1: "HasSuffix (Fs_sanitize fs_example ''/.'') ''/''" unfolding s by (simp add: HasSuffix_def)
  have 2: "RemoveAll 1 env_ok fs_example ''/.'' [] =
       Some (None, [FileReaddir (NewFile fs_example ''/'') 0, DeleteObject ''bucket'' ''//''])"
    using RemoveAll_empty_directory [of env_ok "[]" fs_example "''/.''" 0]
    unfolding s by (simp add: env_ok_def fs_example_def)
  have 3: "Mkdir env_ok fs_example ''/.'' 493 [] =
       (Returns None, [FileOpenWriteStream (NewFile fs_example ''//''),
                       FileClose (NewFile fs_example ''//'')])"
    unfolding Mkdir_calls s Clean_root by (simp add: k env_ok_def)
  from 1 2 3 show ?thesis by blast
qed

end
